theory Spec2Isabelle
  imports Main
begin

section \<open>Strings of the host language\<close>

text \<open>
  A JavaScript string is modelled as a \<^typ>\<open>string\<close>, one \<^typ>\<open>char\<close> per code unit
  (code units 0 to 255). \<open>null\<close> and \<open>undefined\<close> are \<open>None\<close> of an option type.
\<close>

text \<open>\<open>s.split(sep)\<close> for a separator of one character: the pieces between the
  occurrences of the separator, in order; a string without the separator is one piece.\<close>

fun split_str :: "char \<Rightarrow> string \<Rightarrow> string list" where
  "split_str sep [] = [[]]"
| "split_str sep (c # cs) =
     (if c = sep then [] # split_str sep cs
      else (case split_str sep cs of
              [] \<Rightarrow> [[c]]
            | p # ps \<Rightarrow> (c # p) # ps))"

text \<open>\<open>s.padStart(n, c)\<close> for a pad string of one character: nothing is cut off, and
  a string of \<open>n\<close> or more code units is returned as it is.\<close>

definition padStart :: "nat \<Rightarrow> char \<Rightarrow> string \<Rightarrow> string" where
  "padStart n c s = replicate (n - length s) c @ s"

section \<open>main.js\<close>

text \<open>
  \<^verbatim>\<open>function mmddFromDateInput(dateVal) {
    if (!dateVal) return null;
    const parts = dateVal.split("-");
    if (parts.length >= 3) {
      return (parts[1].padStart(2,'0') + "-" + parts[2].padStart(2,'0'));
    }
    return null;
  }\<close>
  The argument is the value of a date input: a string, or \<open>null\<close>. \<open>!dateVal\<close> holds
  for \<open>null\<close> and for the empty string.
\<close>

definition mmddFromDateInput :: "string option \<Rightarrow> string option" where
  "mmddFromDateInput dateVal =
     (case dateVal of
        None \<Rightarrow> None
      | Some s \<Rightarrow>
          if s = [] then None
          else (let parts = split_str CHR ''-'' s in
                if length parts \<ge> 3
                then Some (padStart 2 CHR ''0'' (parts ! 1) @ ''-'' @ padStart 2 CHR ''0'' (parts ! 2))
                else None))"

section \<open>The page\<close>

text \<open>
  Exceptions of the host language that the modelled code can raise or meet. A function
  that can throw returns a sum, \<open>Inl\<close> the exception.
\<close>

datatype exn = TypeError | SyntaxError | NetworkError

text \<open>A question of the quiz payload: \<open>{ id, question, description, options, correct }\<close>.
  The description may be absent. The id is given as the text that string interpolation
  makes of it, and \<open>correct\<close> is a number that is an integer.\<close>

record quiz_question =
  qid :: string
  question :: string
  description :: "string option"
  options :: "string list"
  correct :: int

text \<open>The one event handler the scripts install: \<open>() => gradeQuiz(questions)\<close>.\<close>

datatype handler = GradeQuiz "quiz_question list"

text \<open>
  A node of the document: a text node, or an element with its tag, the properties the
  scripts set on it (\<open>className\<close>, \<open>id\<close>, \<open>name\<close>, \<open>value\<close>, \<open>style.*\<close>,
  \<open>dataset.*\<close>), its checkedness, its click handler and its children. The \<open>type\<close> of
  an input is the keyword that its \<open>type\<close> property gives (\<open>radio\<close>, \<open>checkbox\<close>,
  \<open>text\<close>, ...); an input without it is a text field. Every input has a checkedness,
  also one that is no radio button or checkbox.
\<close>

datatype node =
    TextNode string
  | Element (tag: string) (props: "(string \<times> string) list") (checked: bool)
      (onclick: "handler option") (children: "node list")

text \<open>The elements of a subtree in document order (pre-order).\<close>

fun elements :: "node \<Rightarrow> node list" where
  "elements (TextNode s) = []"
| "elements (Element t ps c h ch) = Element t ps c h ch # concat (map elements ch)"

text \<open>
  The document as the scripts see it: the nodes that come before the element with id
  \<open>quiz-area\<close> in document order, the children of that element (\<open>None\<close> when the
  page has no such element, so that \<open>getElementById\<close> returns \<open>null\<close>), and the nodes
  that come after it. The \<open>quiz-area\<close> element itself is a container, not an input.
\<close>

record page =
  before_area :: "node list"
  quiz_area :: "node list option"
  after_area :: "node list"

definition document_elements :: "page \<Rightarrow> node list" where
  "document_elements pg =
     concat (map elements (before_area pg))
     @ (case quiz_area pg of None \<Rightarrow> [] | Some ch \<Rightarrow> concat (map elements ch))
     @ concat (map elements (after_area pg))"

text \<open>\<open>document.createElement(t)\<close> followed by property assignments: a new element is
  unchecked and has no handler.\<close>

definition el :: "string \<Rightarrow> (string \<times> string) list \<Rightarrow> node list \<Rightarrow> node" where
  "el t ps ch = Element t ps False None ch"

text \<open>
  Assigning a string to \<open>innerText\<close> replaces the children by the rendered text: a text
  node for each non-empty run of characters without line breaks and a \<open>br\<close> element for
  each line break (LF, CR or CR LF).
\<close>

definition flush_text :: "string \<Rightarrow> node list" where
  "flush_text seg = (if seg = [] then [] else [TextNode seg])"

fun text_fragment :: "string \<Rightarrow> string \<Rightarrow> node list" where
  "text_fragment seg [] = flush_text seg"
| "text_fragment seg [c] =
     (if c = CHR 0x0A \<or> c = CHR 0x0D then flush_text seg @ [el ''br'' [] []]
      else flush_text (seg @ [c]))"
| "text_fragment seg (c # d # cs) =
     (if c = CHR 0x0D \<and> d = CHR 0x0A then flush_text seg @ el ''br'' [] [] # text_fragment [] cs
      else if c = CHR 0x0A \<or> c = CHR 0x0D then flush_text seg @ el ''br'' [] [] # text_fragment [] (d # cs)
      else text_fragment (seg @ [c]) (d # cs))"

definition innerText_nodes :: "string \<Rightarrow> node list" where
  "innerText_nodes s = text_fragment [] s"

section \<open>Numbers and their text\<close>

text \<open>The decimal text of a number that is an integer, as string interpolation,
  \<open>String(n)\<close> and \<open>JSON.stringify\<close> give it for a number below \<open>10^21\<close> in
  magnitude (from there on the platform writes an exponent; the scores, the counts and
  the numbers of the model of JSON are all smaller).\<close>

definition digit_char :: "nat \<Rightarrow> char" where
  "digit_char d = ''0123456789'' ! d"

fun show_nat :: "nat \<Rightarrow> string" where
  "show_nat n = (if n < 10 then [digit_char n] else show_nat (n div 10) @ [digit_char (n mod 10)])"

declare show_nat.simps [simp del]

definition show_int :: "int \<Rightarrow> string" where
  "show_int i = (if i < 0 then CHR ''-'' # show_nat (nat (- i)) else show_nat (nat i))"


definition digit_value :: "char \<Rightarrow> nat option" where
  "digit_value c =
     (let n = (of_char c :: nat) in
      if 48 \<le> n \<and> n \<le> 57 then Some (n - 48)
      else if 97 \<le> n \<and> n \<le> 122 then Some (n - 87)
      else if 65 \<le> n \<and> n \<le> 90 then Some (n - 55)
      else None)"

definition is_digit_of :: "nat \<Rightarrow> char \<Rightarrow> bool" where
  "is_digit_of radix c = (case digit_value c of None \<Rightarrow> False | Some d \<Rightarrow> d < radix)"

definition digits_value :: "nat \<Rightarrow> string \<Rightarrow> nat" where
  "digits_value radix z = foldl (\<lambda>a c. a * radix + (case digit_value c of None \<Rightarrow> 0 | Some d \<Rightarrow> d)) 0 z"


section \<open>quiz.js\<close>

text \<open>
  \<^verbatim>\<open>function renderQuiz(questions) {
    const container = document.getElementById("quiz-area");
    if (!container) return;
    container.innerHTML = "";
    if (!questions.length) {
      container.innerHTML = "<div class='small'>No quiz questions found for this selection.</div>";
      return;
    }
    const form = document.createElement("form");  ...
    questions.forEach((q, idx) => { ... });
    ... form.appendChild(submit);
    container.appendChild(form);
  }\<close>
  The markup assigned to \<open>innerHTML\<close> is a literal; its parse is written down as the
  node it denotes.
\<close>

definition no_questions_notice :: node where
  "no_questions_notice =
     el ''div'' [(''className'', ''small'')] [TextNode ''No quiz questions found for this selection.'']"

definition render_option :: "quiz_question \<Rightarrow> string \<Rightarrow> node" where
  "render_option q opt =
     el ''label'' [(''style.display'', ''block''), (''style.marginBottom'', ''6px'')]
       [el ''input'' [(''type'', ''radio''), (''name'', qid q), (''value'', opt),
                      (''id'', qid q @ ''-'' @ opt)] [],
        el ''span'' [(''style.marginLeft'', ''8px'')] (innerText_nodes opt)]"

definition render_question :: "nat \<Rightarrow> quiz_question \<Rightarrow> node" where
  "render_question idx q =
     el ''div'' [(''className'', ''card''), (''dataset.correct'', show_int (correct q))]
       ([el ''div'' [(''className'', ''title'')]
           (innerText_nodes (show_nat (idx + 1) @ ''. '' @ question q)),
         el ''div'' [(''className'', ''small''), (''style.marginBottom'', ''8px'')]
           (innerText_nodes (case description q of None \<Rightarrow> [] | Some d \<Rightarrow> d))]
        @ map (render_option q) (options q))"

definition submit_button :: "quiz_question list \<Rightarrow> node" where
  "submit_button questions =
     Element ''button'' [(''type'', ''button''), (''className'', ''primary'')] False
       (Some (GradeQuiz questions)) (innerText_nodes ''Submit Quiz'')"

definition quiz_form :: "quiz_question list \<Rightarrow> node" where
  "quiz_form questions =
     el ''form'' [(''id'', ''quizForm'')]
       (map (\<lambda>(idx, q). render_question idx q) (enumerate 0 questions)
        @ [submit_button questions])"

definition renderQuiz :: "quiz_question list \<Rightarrow> page \<Rightarrow> page" where
  "renderQuiz questions pg =
     (case quiz_area pg of
        None \<Rightarrow> pg
      | Some old \<Rightarrow>
          if length questions = 0 then pg\<lparr>quiz_area := Some [no_questions_notice]\<rparr>
          else pg\<lparr>quiz_area := Some [quiz_form questions]\<rparr>)"




text \<open>
  An element matches \<open>input[name="n"]:checked\<close> when it is an \<open>input\<close>, its name is
  \<open>n\<close>, and it is a radio button or a checkbox that is checked: \<open>:checked\<close> holds of no
  other kind of input, whatever its checkedness. \<open>querySelector\<close> returns the first
  match in document order, or \<open>null\<close>. The value of a radio button or checkbox without
  a \<open>value\<close> is \<open>on\<close>.
\<close>

definition is_checkable :: "node \<Rightarrow> bool" where
  "is_checkable e =
     (map_of (props e) ''type'' = Some ''radio'' \<or> map_of (props e) ''type'' = Some ''checkbox'')"









text \<open>
  \<^verbatim>\<open>async function loadQuiz(mmdd=null, count=5) {
    const url = new URL("/api/quiz", window.location.origin);
    if (mmdd) url.searchParams.set("mmdd", mmdd);
    url.searchParams.set("count", count);
    const res = await fetch(url);
    if (!res.ok) {
      document.getElementById("quiz-area").innerText = "Could not load quiz.";
      return;
    }
    const data = await res.json();
    renderQuiz(data.questions || []);
  }\<close>
  The request is the path and the query parameters. The quiz API is the environment: a
  function from the request to what \<open>fetch\<close> settles with, a rejection or a response.
  A response has its \<open>ok\<close> flag and what \<open>res.json()\<close> settles with: a rejection, or a
  body of the shape \<open>{ questions }\<close> whose \<open>questions\<close> may be absent. The page is the
  page at the time the response arrives.
\<close>

record request =
  path :: string
  query :: "(string \<times> string) list"

record quiz_response =
  questions :: "quiz_question list option"

record response =
  ok :: bool
  json :: "exn + quiz_response"

datatype fetch_result = Rejected | Resolved response

definition quiz_url :: "string option \<Rightarrow> nat option \<Rightarrow> request" where
  "quiz_url mmdd count =
     \<lparr>path = ''/api/quiz'',
      query = (case mmdd of None \<Rightarrow> [] | Some m \<Rightarrow> if m = [] then [] else [(''mmdd'', m)])
              @ [(''count'', show_nat (case count of None \<Rightarrow> 5 | Some c \<Rightarrow> c))]\<rparr>"

definition loadQuiz ::
  "(request \<Rightarrow> fetch_result) \<Rightarrow> string option \<Rightarrow> nat option \<Rightarrow> page \<Rightarrow> exn + page" where
  "loadQuiz fetch mmdd count pg =
     (case fetch (quiz_url mmdd count) of
        Rejected \<Rightarrow> Inl NetworkError
      | Resolved res \<Rightarrow>
          if \<not> ok res then
            (case quiz_area pg of
               None \<Rightarrow> Inl TypeError
             | Some old \<Rightarrow> Inr (pg\<lparr>quiz_area := Some (innerText_nodes ''Could not load quiz.'')\<rparr>))
          else
            (case json res of
               Inl e \<Rightarrow> Inl e
             | Inr data \<Rightarrow>
                 Inr (renderQuiz (case questions data of None \<Rightarrow> [] | Some qs \<Rightarrow> qs) pg)))"

section \<open>Values, storage and the JSON interface\<close>

text \<open>
  The values that structured text denotes: \<open>null\<close>, booleans, numbers, strings,
  arrays, and objects as their properties in order. The numbers are the integers and
  the two infinities, which \<open>JSON.parse\<close> gives for a literal beyond the largest double;
  \<open>-0\<close> is \<open>0\<close>. A property that an object does not have reads as \<open>undefined\<close>,
  which is \<open>None\<close>.
\<close>

datatype number = Finite int | PosInf | NegInf

datatype jsval =
    JNull
  | JBool bool
  | JNum number
  | JStr string
  | JArr "jsval list"
  | JObj "(string \<times> jsval) list"

text \<open>
  Reading the property \<open>title\<close> or \<open>date\<close> of a value: \<open>null\<close> throws, an object
  gives the property or \<open>undefined\<close>, and any other value has no such property.
\<close>

fun get_prop :: "jsval \<Rightarrow> string \<Rightarrow> exn + jsval option" where
  "get_prop JNull k = Inl TypeError"
| "get_prop (JObj kvs) k = Inr (map_of kvs k)"
| "get_prop v k = Inr None"

text \<open>
  \<open>a === b\<close> where one side was just parsed from storage: \<open>undefined\<close> equals
  \<open>undefined\<close>, primitive values (\<open>null\<close>, booleans, numbers, strings) are equal when
  they are the same value, and an array or object from storage is identical to no
  other value.
\<close>

definition is_primitive :: "jsval \<Rightarrow> bool" where
  "is_primitive v = (case v of JArr xs \<Rightarrow> False | JObj kvs \<Rightarrow> False | _ \<Rightarrow> True)"

definition strict_eq :: "jsval option \<Rightarrow> jsval option \<Rightarrow> bool" where
  "strict_eq a b = (a = b \<and> (case a of None \<Rightarrow> True | Some v \<Rightarrow> is_primitive v))"

text \<open>
  \<open>localStorage\<close>: a map from keys to strings, with room for what the scripts write
  (\<open>setItem\<close> does not throw). \<open>JSON.parse\<close> and \<open>JSON.stringify\<close>
  belong to the platform, not to the scripts; the scripts are modelled over any pair of
  them. \<open>JSON.parse\<close> returns a value or throws; \<open>JSON.stringify\<close> takes the value and
  the number of spaces of indentation (0 when the source gives none). What the platform's
  pair does is modelled below, as far as the numbers above reach.
\<close>

type_synonym storage = "string \<rightharpoonup> string"

record json_api =
  JSON_parse :: "string \<Rightarrow> exn + jsval"
  JSON_stringify :: "jsval \<Rightarrow> nat \<Rightarrow> string"

text \<open>
  \<open>JSON.stringify(value, null, space)\<close> on such values, after the language standard: a
  string is quoted with its escapes, a finite number is its decimal text, an infinity
  is \<open>null\<close>; with a gap (\<open>space\<close> spaces, at most 10) every element and every
  property goes on a line of its own, indented by one more gap than its parent, and a
  property has a space after its colon.
\<close>

definition hex_char :: "nat \<Rightarrow> char" where
  "hex_char d = ''0123456789abcdef'' ! d"

definition quote_char :: "char \<Rightarrow> string" where
  "quote_char c =
     (if c = CHR 0x22 then [CHR 0x5C, CHR 0x22]
      else if c = CHR 0x5C then [CHR 0x5C, CHR 0x5C]
      else if c = CHR 0x08 then [CHR 0x5C, CHR ''b'']
      else if c = CHR 0x0C then [CHR 0x5C, CHR ''f'']
      else if c = CHR 0x0A then [CHR 0x5C, CHR ''n'']
      else if c = CHR 0x0D then [CHR 0x5C, CHR ''r'']
      else if c = CHR 0x09 then [CHR 0x5C, CHR ''t'']
      else if (of_char c :: nat) < 32
        then [CHR 0x5C, CHR ''u'', CHR ''0'', CHR ''0'',
              hex_char (of_char c div 16), hex_char (of_char c mod 16)]
      else [c])"

definition quote :: "string \<Rightarrow> string" where
  "quote s = CHR 0x22 # concat (map quote_char s) @ [CHR 0x22]"

fun join :: "string \<Rightarrow> string list \<Rightarrow> string" where
  "join sep [] = []"
| "join sep [x] = x"
| "join sep (x # y # ys) = x @ sep @ join sep (y # ys)"

fun serialize :: "string \<Rightarrow> string \<Rightarrow> jsval \<Rightarrow> string" where
  "serialize gap ind JNull = ''null''"
| "serialize gap ind (JBool b) = (if b then ''true'' else ''false'')"
| "serialize gap ind (JNum x) = (case x of Finite n \<Rightarrow> show_int n | _ \<Rightarrow> ''null'')"
| "serialize gap ind (JStr s) = quote s"
| "serialize gap ind (JArr xs) =
     (if xs = [] then ''[]''
      else if gap = [] then ''['' @ join '','' (map (serialize gap (ind @ gap)) xs) @ '']''
      else ''['' @ CHR 0x0A # (ind @ gap)
           @ join ('','' @ CHR 0x0A # (ind @ gap)) (map (serialize gap (ind @ gap)) xs)
           @ CHR 0x0A # ind @ '']'')"
| "serialize gap ind (JObj kvs) =
     (if kvs = [] then ''{}''
      else if gap = [] then
        ''{'' @ join '','' (map (\<lambda>kv. quote (fst kv) @ '':'' @ serialize gap (ind @ gap) (snd kv)) kvs)
        @ ''}''
      else ''{'' @ CHR 0x0A # (ind @ gap)
           @ join ('','' @ CHR 0x0A # (ind @ gap))
               (map (\<lambda>kv. quote (fst kv) @ '': '' @ serialize gap (ind @ gap) (snd kv)) kvs)
           @ CHR 0x0A # ind @ ''}'')"

definition json_stringify :: "jsval \<Rightarrow> nat \<Rightarrow> string" where
  "json_stringify v n = serialize (replicate (min n 10) CHR '' '') [] v"

section \<open>The model of JSON.parse\<close>

text \<open>
  \<open>JSON.parse\<close> after the language standard, as a recursive descent over the text. A
  step of the parser gives the value read and the rest of the text, or finds the text
  malformed, or meets what the values above do not represent (\<open>Beyond\<close>: a number that
  is neither an integer below \<open>2^53\<close> in magnitude nor beyond the largest double, an
  escape for a code unit above 255, a property key that is an array index, which the
  platform would move to the front of the object). The recursion on values runs on fuel,
  one unit per call; it never runs out on twice the length of the text and one more.
\<close>

datatype 'a parsed = Parsed 'a string | Malformed | Beyond | NoFuel

text \<open>White space between tokens: space, tab, line feed, carriage return.\<close>

definition is_json_space :: "char \<Rightarrow> bool" where
  "is_json_space c = (c = CHR 0x20 \<or> c = CHR 0x09 \<or> c = CHR 0x0A \<or> c = CHR 0x0D)"

definition skip_space :: "string \<Rightarrow> string" where
  "skip_space s = dropWhile is_json_space s"

text \<open>The characters of a string after its opening quote, up to the closing quote:
  no raw control character, and the escapes \<open>\" \\ \/ \b \f \n \r \t \uXXXX\<close>.\<close>

definition hex4 :: "string \<Rightarrow> nat option" where
  "hex4 s =
     (if length s \<ge> 4 \<and> list_all (is_digit_of 16) (take 4 s)
      then Some (digits_value 16 (take 4 s)) else None)"

definition unescape :: "char \<Rightarrow> char option" where
  "unescape e =
     (if e = CHR 0x22 then Some (CHR 0x22)
      else if e = CHR 0x5C then Some (CHR 0x5C)
      else if e = CHR ''/'' then Some (CHR ''/'')
      else if e = CHR ''b'' then Some (CHR 0x08)
      else if e = CHR ''f'' then Some (CHR 0x0C)
      else if e = CHR ''n'' then Some (CHR 0x0A)
      else if e = CHR ''r'' then Some (CHR 0x0D)
      else if e = CHR ''t'' then Some (CHR 0x09)
      else None)"

fun parse_chars :: "string \<Rightarrow> string \<Rightarrow> string parsed" where
  "parse_chars acc [] = Malformed"
| "parse_chars acc (c # cs) =
     (if c = CHR 0x22 then Parsed acc cs
      else if c = CHR 0x5C then
        (case cs of
           [] \<Rightarrow> Malformed
         | e # es \<Rightarrow>
             if e = CHR ''u'' then
               (case hex4 es of
                  None \<Rightarrow> Malformed
                | Some code \<Rightarrow>
                    if code < 256 then parse_chars (acc @ [char_of code]) (drop 4 es) else Beyond)
             else (case unescape e of
                     None \<Rightarrow> Malformed
                   | Some ch \<Rightarrow> parse_chars (acc @ [ch]) es))
      else if (of_char c :: nat) < 32 then Malformed
      else parse_chars (acc @ [c]) cs)"

text \<open>
  A number: an optional minus sign, the integer digits (no leading zero), an optional
  fraction, an optional exponent. Its value is \<open>num / den\<close>. It reads as an infinity
  from \<open>2^1024 - 2^970\<close> on, where rounding to the nearest double overflows, and as an
  integer when it is one and is below \<open>2^53\<close>.
\<close>

definition is_dec :: "char \<Rightarrow> bool" where
  "is_dec c = (c \<in> set ''0123456789'')"

definition overflow_bound :: nat where
  "overflow_bound = 2 ^ 1024 - 2 ^ 970"

definition classify :: "bool \<Rightarrow> nat \<Rightarrow> nat \<Rightarrow> number option" where
  "classify neg num den =
     (if num \<ge> overflow_bound * den then Some (if neg then NegInf else PosInf)
      else if num mod den = 0 \<and> num div den < 2 ^ 53
        then Some (Finite (if neg then - int (num div den) else int (num div den)))
      else None)"

definition parse_number :: "string \<Rightarrow> number parsed" where
  "parse_number s =
     (let neg = (s \<noteq> [] \<and> hd s = CHR ''-'');
          s1 = (if neg then tl s else s);
          ip = takeWhile is_dec s1;
          s2 = dropWhile is_dec s1;
          has_frac = (s2 \<noteq> [] \<and> hd s2 = CHR ''.'');
          fp = (if has_frac then takeWhile is_dec (tl s2) else []);
          s3 = (if has_frac then dropWhile is_dec (tl s2) else s2);
          has_exp = (s3 \<noteq> [] \<and> (hd s3 = CHR ''e'' \<or> hd s3 = CHR ''E''));
          s4 = (if has_exp then tl s3 else s3);
          eneg = (has_exp \<and> s4 \<noteq> [] \<and> hd s4 = CHR ''-'');
          s5 = (if has_exp \<and> s4 \<noteq> [] \<and> (hd s4 = CHR ''-'' \<or> hd s4 = CHR ''+'') then tl s4 else s4);
          ep = (if has_exp then takeWhile is_dec s5 else []);
          s6 = (if has_exp then dropWhile is_dec s5 else s3)
      in if ip = [] \<or> (length ip > 1 \<and> hd ip = CHR ''0'') \<or> (has_frac \<and> fp = [])
            \<or> (has_exp \<and> ep = [])
         then Malformed
         else
           (let m = digits_value 10 (ip @ fp);
                e = digits_value 10 ep;
                up = (if eneg then 0 else e);
                down = length fp + (if eneg then e else 0);
                k = min up down
            in case classify neg (m * 10 ^ (up - k)) (10 ^ (down - k)) of
                 None \<Rightarrow> Beyond
               | Some x \<Rightarrow> Parsed x s6))"

text \<open>
  A property key that is an array index is the decimal text of a number below
  \<open>2^32 - 1\<close>. Defining a property that the object already has replaces its value in
  place; a new property goes to the end.
\<close>

definition is_array_index :: "string \<Rightarrow> bool" where
  "is_array_index k =
     (k \<noteq> [] \<and> list_all is_dec k \<and> (length k = 1 \<or> hd k \<noteq> CHR ''0'')
      \<and> digits_value 10 k < 2 ^ 32 - 1)"

fun put_prop :: "string \<Rightarrow> jsval \<Rightarrow> (string \<times> jsval) list \<Rightarrow> (string \<times> jsval) list" where
  "put_prop k v [] = [(k, v)]"
| "put_prop k v (p # ps) = (if fst p = k then (k, v) # ps else p # put_prop k v ps)"

text \<open>Values, the elements of an array after its opening bracket, the members of an
  object after its opening brace.\<close>

fun parse_value :: "nat \<Rightarrow> string \<Rightarrow> jsval parsed"
  and parse_elements :: "nat \<Rightarrow> jsval list \<Rightarrow> string \<Rightarrow> jsval parsed"
  and parse_members :: "nat \<Rightarrow> (string \<times> jsval) list \<Rightarrow> string \<Rightarrow> jsval parsed"
where
  "parse_value 0 s = NoFuel"
| "parse_value (Suc n) s =
     (case skip_space s of
        [] \<Rightarrow> Malformed
      | c # cs \<Rightarrow>
          if c = CHR 0x22 then
            (case parse_chars [] cs of
               Parsed str r \<Rightarrow> Parsed (JStr str) r
             | Malformed \<Rightarrow> Malformed | Beyond \<Rightarrow> Beyond | NoFuel \<Rightarrow> NoFuel)
          else if c = CHR ''['' then
            (case skip_space cs of
               [] \<Rightarrow> Malformed
             | d # ds \<Rightarrow> if d = CHR '']'' then Parsed (JArr []) ds else parse_elements n [] (d # ds))
          else if c = CHR ''{'' then
            (case skip_space cs of
               [] \<Rightarrow> Malformed
             | d # ds \<Rightarrow> if d = CHR ''}'' then Parsed (JObj []) ds else parse_members n [] (d # ds))
          else if take 4 (c # cs) = ''null'' then Parsed JNull (drop 4 (c # cs))
          else if take 4 (c # cs) = ''true'' then Parsed (JBool True) (drop 4 (c # cs))
          else if take 5 (c # cs) = ''false'' then Parsed (JBool False) (drop 5 (c # cs))
          else if c = CHR ''-'' \<or> is_dec c then
            (case parse_number (c # cs) of
               Parsed x r \<Rightarrow> Parsed (JNum x) r
             | Malformed \<Rightarrow> Malformed | Beyond \<Rightarrow> Beyond | NoFuel \<Rightarrow> NoFuel)
          else Malformed)"
| "parse_elements 0 acc s = NoFuel"
| "parse_elements (Suc n) acc s =
     (case parse_value n s of
        Parsed v r \<Rightarrow>
          (case skip_space r of
             [] \<Rightarrow> Malformed
           | c # cs \<Rightarrow>
               if c = CHR '','' then parse_elements n (acc @ [v]) cs
               else if c = CHR '']'' then Parsed (JArr (acc @ [v])) cs
               else Malformed)
      | Malformed \<Rightarrow> Malformed | Beyond \<Rightarrow> Beyond | NoFuel \<Rightarrow> NoFuel)"
| "parse_members 0 acc s = NoFuel"
| "parse_members (Suc n) acc s =
     (case skip_space s of
        [] \<Rightarrow> Malformed
      | q # qs \<Rightarrow>
          if q \<noteq> CHR 0x22 then Malformed
          else
            (case parse_chars [] qs of
               Parsed k r \<Rightarrow>
                 (case skip_space r of
                    [] \<Rightarrow> Malformed
                  | c # cs \<Rightarrow>
                      if c \<noteq> CHR '':'' then Malformed
                      else
                        (case parse_value n cs of
                           Parsed v r2 \<Rightarrow>
                             (case skip_space r2 of
                                [] \<Rightarrow> Malformed
                              | d # ds \<Rightarrow>
                                  if d = CHR '','' then
                                    (if is_array_index k then Beyond
                                     else parse_members n (put_prop k v acc) ds)
                                  else if d = CHR ''}'' then
                                    (if is_array_index k then Beyond
                                     else Parsed (JObj (put_prop k v acc)) ds)
                                  else Malformed)
                         | Malformed \<Rightarrow> Malformed | Beyond \<Rightarrow> Beyond | NoFuel \<Rightarrow> NoFuel))
             | Malformed \<Rightarrow> Malformed | Beyond \<Rightarrow> Beyond | NoFuel \<Rightarrow> NoFuel))"

text \<open>
  The whole text is one value, with white space around it at most. \<open>None\<close> is a text
  outside the model; otherwise the result is the value or the \<open>SyntaxError\<close> thrown.
\<close>

definition json_parse :: "string \<Rightarrow> (exn + jsval) option" where
  "json_parse s =
     (case parse_value (Suc (2 * length s)) s of
        Parsed v r \<Rightarrow> if skip_space r = [] then Some (Inr v) else Some (Inl SyntaxError)
      | Malformed \<Rightarrow> Some (Inl SyntaxError)
      | Beyond \<Rightarrow> None
      | NoFuel \<Rightarrow> None)"

text \<open>
  The values that \<open>JSON.parse\<close> of the model returns: a finite number is an integer
  below \<open>2^53\<close> in magnitude; the keys of an object are distinct and none is an array
  index.
\<close>

fun parseable :: "jsval \<Rightarrow> bool" where
  "parseable JNull = True"
| "parseable (JBool b) = True"
| "parseable (JNum x) = (case x of Finite n \<Rightarrow> \<bar>n\<bar> < 2 ^ 53 | _ \<Rightarrow> True)"
| "parseable (JStr s) = True"
| "parseable (JArr xs) = list_all parseable xs"
| "parseable (JObj kvs) =
     (distinct (map fst kvs)
      \<and> list_all (\<lambda>kv. \<not> is_array_index (fst kv) \<and> parseable (snd kv)) kvs)"

text \<open>No number in the value is an infinity.\<close>

fun finite_numbers :: "jsval \<Rightarrow> bool" where
  "finite_numbers JNull = True"
| "finite_numbers (JBool b) = True"
| "finite_numbers (JNum x) = (case x of Finite n \<Rightarrow> True | _ \<Rightarrow> False)"
| "finite_numbers (JStr s) = True"
| "finite_numbers (JArr xs) = list_all finite_numbers xs"
| "finite_numbers (JObj kvs) = list_all (\<lambda>kv. finite_numbers (snd kv)) kvs"

text \<open>
  The values that come back from their text: those of the model without an infinity.
\<close>

fun representable :: "jsval \<Rightarrow> bool" where
  "representable JNull = True"
| "representable (JBool b) = True"
| "representable (JNum x) = (case x of Finite n \<Rightarrow> \<bar>n\<bar> < 2 ^ 53 | _ \<Rightarrow> False)"
| "representable (JStr s) = True"
| "representable (JArr xs) = list_all representable xs"
| "representable (JObj kvs) =
     (distinct (map fst kvs)
      \<and> list_all (\<lambda>kv. \<not> is_array_index (fst kv) \<and> representable (snd kv)) kvs)"

text \<open>
  The value that the text of a value denotes: \<open>JSON.stringify\<close> writes an infinity as
  \<open>null\<close>.
\<close>

fun infinities_as_null :: "jsval \<Rightarrow> jsval" where
  "infinities_as_null JNull = JNull"
| "infinities_as_null (JBool b) = JBool b"
| "infinities_as_null (JNum x) = (case x of Finite n \<Rightarrow> JNum x | _ \<Rightarrow> JNull)"
| "infinities_as_null (JStr s) = JStr s"
| "infinities_as_null (JArr xs) = JArr (map infinities_as_null xs)"
| "infinities_as_null (JObj kvs) = JObj (map (\<lambda>kv. (fst kv, infinities_as_null (snd kv))) kvs)"

text \<open>
  A platform agrees with the model when its \<open>JSON.stringify\<close> writes every value of the
  model as the model does, and its \<open>JSON.parse\<close> reads every text that the model reads
  as the model does. \<open>model_api\<close> is such a platform; it rejects the texts that the
  model does not read.
\<close>

definition agrees :: "json_api \<Rightarrow> bool" where
  "agrees api =
     ((\<forall>v n. parseable v \<longrightarrow> JSON_stringify api v n = json_stringify v n)
      \<and> (\<forall>s r. json_parse s = Some r \<longrightarrow> JSON_parse api s = r))"

definition model_api :: json_api where
  "model_api =
     \<lparr>JSON_parse = (\<lambda>s. case json_parse s of None \<Rightarrow> Inl SyntaxError | Some r \<Rightarrow> r),
      JSON_stringify = json_stringify\<rparr>"

section \<open>bookmarks.js\<close>

definition BOOKMARK_KEY :: string where
  "BOOKMARK_KEY = ''hip_bookmarks_v1''"

text \<open>
  \<^verbatim>\<open>function loadBookmarks() {
    let raw = localStorage.getItem(BOOKMARK_KEY);
    if (!raw) return [];
    try {
      return JSON.parse(raw);
    } catch(e) { return []; }
  }\<close>
\<close>

definition loadBookmarks :: "json_api \<Rightarrow> storage \<Rightarrow> exn + jsval" where
  "loadBookmarks api st =
     (case st BOOKMARK_KEY of
        None \<Rightarrow> Inr (JArr [])
      | Some raw \<Rightarrow>
          if raw = [] then Inr (JArr [])
          else (case JSON_parse api raw of
                  Inl e \<Rightarrow> Inr (JArr [])
                | Inr v \<Rightarrow> Inr v))"

text \<open>
  \<^verbatim>\<open>function saveBookmarks(list) {
    localStorage.setItem(BOOKMARK_KEY, JSON.stringify(list));
  }\<close>
\<close>

definition saveBookmarks :: "json_api \<Rightarrow> jsval \<Rightarrow> storage \<Rightarrow> storage" where
  "saveBookmarks api list st = st(BOOKMARK_KEY \<mapsto> JSON_stringify api list 0)"

text \<open>
  \<^verbatim>\<open>function addBookmark(eventObj) {
    const list = loadBookmarks();
    // avoid duplicates by title+date
    const exists = list.some(b => b.title === eventObj.title && b.date === eventObj.date);
    if (exists) return false;
    list.unshift(eventObj);
    saveBookmarks(list);
    return true;
  }\<close>
  The callback reads \<open>b.title\<close>, then \<open>eventObj.title\<close>, and the dates only when the
  titles are equal. \<open>some\<close> stops at the first element for which the callback holds; an
  exception of the callback ends it. A value that is not an array has no method
  \<open>some\<close>: the call throws.
\<close>

definition same_title_date :: "jsval \<Rightarrow> jsval \<Rightarrow> exn + bool" where
  "same_title_date b eventObj =
     (case get_prop b ''title'' of
        Inl e \<Rightarrow> Inl e
      | Inr bt \<Rightarrow>
          (case get_prop eventObj ''title'' of
             Inl e \<Rightarrow> Inl e
           | Inr et \<Rightarrow>
               if \<not> strict_eq bt et then Inr False
               else (case get_prop b ''date'' of
                       Inl e \<Rightarrow> Inl e
                     | Inr bd \<Rightarrow>
                         (case get_prop eventObj ''date'' of
                            Inl e \<Rightarrow> Inl e
                          | Inr ed \<Rightarrow> Inr (strict_eq bd ed)))))"

fun some_same :: "jsval \<Rightarrow> jsval list \<Rightarrow> exn + bool" where
  "some_same eventObj [] = Inr False"
| "some_same eventObj (b # bs) =
     (case same_title_date b eventObj of
        Inl e \<Rightarrow> Inl e
      | Inr found \<Rightarrow> if found then Inr True else some_same eventObj bs)"

definition addBookmark :: "json_api \<Rightarrow> jsval \<Rightarrow> storage \<Rightarrow> (exn + bool) \<times> storage" where
  "addBookmark api eventObj st =
     (case loadBookmarks api st of
        Inl e \<Rightarrow> (Inl e, st)
      | Inr (JArr list) \<Rightarrow>
          (case some_same eventObj list of
             Inl e \<Rightarrow> (Inl e, st)
           | Inr exists \<Rightarrow>
               if exists then (Inr False, st)
               else (Inr True, saveBookmarks api (JArr (eventObj # list)) st))
      | Inr other \<Rightarrow> (Inl TypeError, st))"

text \<open>
  \<^verbatim>\<open>function clearBookmarks() {
    localStorage.removeItem(BOOKMARK_KEY);
  }\<close>
\<close>

definition clearBookmarks :: "storage \<Rightarrow> storage" where
  "clearBookmarks st = st(BOOKMARK_KEY := None)"



section \<open>Notions of the specification\<close>


text \<open>
  The exclusive-choice group of a question: the radio buttons (and checkboxes) whose
  name is the question's id. Its selection is the first checked one in document order.
  The question is answered right when there is a selection and its value, read by
  \<open>parseInt\<close>, is the question's \<open>correct\<close>.
\<close>

definition in_group :: "quiz_question \<Rightarrow> node \<Rightarrow> bool" where
  "in_group q e = (tag e = ''input'' \<and> is_checkable e \<and> map_of (props e) ''name'' = Some (qid q))"

definition selection :: "page \<Rightarrow> quiz_question \<Rightarrow> node option" where
  "selection pg q = find (\<lambda>e. in_group q e \<and> checked e) (document_elements pg)"


text \<open>
  The (title, date) pair of a value that is not \<open>null\<close>: the properties \<open>title\<close> and
  \<open>date\<close> of an object, \<open>undefined\<close> for what is absent and for every value that is
  no object. Two values have the same pair when neither is \<open>null\<close> (whose properties
  cannot be read) and their titles and their dates are equal by \<open>===\<close>.
\<close>

definition title_date :: "jsval \<Rightarrow> jsval option \<times> jsval option" where
  "title_date v =
     (case v of JObj kvs \<Rightarrow> (map_of kvs ''title'', map_of kvs ''date'') | _ \<Rightarrow> (None, None))"

definition same_pair :: "jsval \<Rightarrow> jsval \<Rightarrow> bool" where
  "same_pair b r =
     (b \<noteq> JNull \<and> r \<noteq> JNull
      \<and> strict_eq (fst (title_date b)) (fst (title_date r))
      \<and> strict_eq (snd (title_date b)) (snd (title_date r)))"

text \<open>
  A record keeps its pair in the store when the value that its text denotes is not
  \<open>null\<close> and has the same title and date: the record is neither \<open>null\<close> nor an
  infinity, and neither its title nor its date holds an infinity.
\<close>

definition keeps_pair :: "jsval \<Rightarrow> bool" where
  "keeps_pair r =
     (infinities_as_null r \<noteq> JNull \<and> title_date (infinities_as_null r) = title_date r)"

section \<open>Notions of the proofs\<close>

text \<open>The fuel that reading the text of a value takes, what may follow a number or a
  value in a text, white space, and the characters a value can start with.\<close>

fun need :: "jsval \<Rightarrow> nat" where
  "need (JArr xs) = Suc (sum_list (map (\<lambda>x. Suc (need x)) xs))"
| "need (JObj kvs) = Suc (sum_list (map (\<lambda>kv. Suc (need (snd kv))) kvs))"
| "need v = Suc 0"

definition number_end :: "string \<Rightarrow> bool" where
  "number_end rest =
     (rest = [] \<or> (\<not> is_dec (hd rest) \<and> hd rest \<noteq> CHR ''.'' \<and> hd rest \<noteq> CHR ''e'' \<and> hd rest \<noteq> CHR ''E''))"

definition spaces :: "string \<Rightarrow> bool" where
  "spaces w = list_all is_json_space w"

definition follow_ok :: "string \<Rightarrow> bool" where
  "follow_ok rest =
     (rest = [] \<or> hd rest = CHR '','' \<or> hd rest = CHR '']'' \<or> hd rest = CHR ''}''
      \<or> is_json_space (hd rest))"

definition value_start :: "char \<Rightarrow> bool" where
  "value_start c =
     (c = CHR 0x22 \<or> c = CHR ''['' \<or> c = CHR ''{'' \<or> c = CHR ''-'' \<or> is_dec c
      \<or> c = CHR ''n'' \<or> c = CHR ''t'' \<or> c = CHR ''f'')"

section \<open>Sample data\<close>

text \<open>A quiz of two questions and a page with their four radio inputs, each checked or
  not.\<close>

definition demo_questions :: "quiz_question list" where
  "demo_questions =
     [\<lparr>qid = ''q1'', question = ''First?'', description = None, options = [''0'', ''1''], correct = 1\<rparr>,
      \<lparr>qid = ''q2'', question = ''Second?'', description = Some ''pick'', options = [''0'', ''1''], correct = 0\<rparr>]"


definition radio :: "string \<Rightarrow> string \<Rightarrow> bool \<Rightarrow> node" where
  "radio nm v c = Element ''input'' [(''type'', ''radio''), (''name'', nm), (''value'', v)] c None []"

definition demo_page :: "bool \<Rightarrow> bool \<Rightarrow> bool \<Rightarrow> bool \<Rightarrow> page" where
  "demo_page a b c d =
     \<lparr>before_area = [],
      quiz_area = Some [el ''form'' [] [radio ''q1'' ''0'' a, radio ''q1'' ''1'' b,
                                        radio ''q2'' ''0'' c, radio ''q2'' ''1'' d]],
      after_area = []\<rparr>"

text \<open>
  Two bookmark records and the texts of the lists they form, as \<open>JSON.stringify\<close>
  writes them; a stored text with a number beyond the largest double, the list it
  denotes, and the list that its export denotes.
\<close>

definition moon :: jsval where
  "moon = JObj [(''title'', JStr ''Moon landing''), (''date'', JStr ''1969-07-20'')]"

definition wall :: jsval where
  "wall = JObj [(''title'', JStr ''Berlin Wall falls''), (''date'', JStr ''1989-11-09'')]"

definition moon_text :: string where
  "moon_text = ''{'' @ quote ''title'' @ '':'' @ quote ''Moon landing'' @ '',''
                 @ quote ''date'' @ '':'' @ quote ''1969-07-20'' @ ''}''"

definition wall_text :: string where
  "wall_text = ''{'' @ quote ''title'' @ '':'' @ quote ''Berlin Wall falls'' @ '',''
                 @ quote ''date'' @ '':'' @ quote ''1989-11-09'' @ ''}''"

definition one_text :: string where
  "one_text = ''['' @ moon_text @ '']''"

definition two_text :: string where
  "two_text = ''['' @ wall_text @ '','' @ moon_text @ '']''"




text \<open>
  A stored list that begins with \<open>null\<close>, the list of \<open>null\<close> alone, and the record of
  the overflowing text with the record that its text denotes.
\<close>

definition null_moon_text :: string where
  "null_moon_text = ''[null,'' @ moon_text @ '']''"

definition null_text :: string where
  "null_text = ''[null]''"

definition far_moon :: jsval where
  "far_moon = JObj [(''title'', JStr ''Moon landing''), (''date'', JStr ''1969-07-20''),
                    (''year'', JNum PosInf)]"



section \<open>Properties of main.js\<close>

lemma split_str_not_Nil: "split_str sep s \<noteq> []"
  by (induction s) (auto split: list.splits)

lemma length_padStart: "length (padStart n c s) = max n (length s)"
  by (simp add: padStart_def)

text \<open>
  Claim C2, as the code has it. For a non-empty string that splits into at least three
  hyphen-separated parts the result is the second and the third part, each padded on the
  left with \<open>0\<close> to at least two characters, joined by a hyphen; this has exactly five
  characters when both parts have at most two characters, as they do in \<open>YYYY-MM-DD\<close> and
  \<open>YYYY-M-D\<close> input. For \<open>null\<close>, the empty string and every string with fewer than
  three parts the result is \<open>null\<close>. No input makes the function throw: its result is
  always a string or \<open>null\<close>.
\<close>

theorem mmddFromDateInput_spec:
  "mmddFromDateInput None = None
   \<and> mmddFromDateInput (Some []) = None
   \<and> (length (split_str CHR ''-'' s) < 3 \<longrightarrow> mmddFromDateInput (Some s) = None)
   \<and> (s \<noteq> [] \<and> length (split_str CHR ''-'' s) \<ge> 3 \<longrightarrow>
        (\<exists>r. mmddFromDateInput (Some s) = Some r
          \<and> r = padStart 2 CHR ''0'' (split_str CHR ''-'' s ! 1) @ ''-''
                 @ padStart 2 CHR ''0'' (split_str CHR ''-'' s ! 2)
          \<and> (length (split_str CHR ''-'' s ! 1) \<le> 2 \<and> length (split_str CHR ''-'' s ! 2) \<le> 2
               \<longrightarrow> length r = 5 \<and> r ! 2 = CHR ''-'')))"
  by (auto simp: mmddFromDateInput_def Let_def length_padStart nth_append)

theorem mmddFromDateInput_spec_witness:
  "mmddFromDateInput (Some ''2024-3-7'') = Some ''03-07''
   \<and> mmddFromDateInput (Some ''2024-03-07'') = Some ''03-07''
   \<and> mmddFromDateInput (Some ''2024-03'') = None"
  using mmddFromDateInput_spec [of "''2024-3-7''"] mmddFromDateInput_spec [of "''2024-03-07''"]
    mmddFromDateInput_spec [of "''2024-03''"]
  by (simp add: padStart_def)

theorem mmddFromDateInput_long_part_counterexample:
  "mmddFromDateInput (Some ''2024-123-7'') = Some ''123-07'' \<and> length ''123-07'' \<noteq> 5"
  by (simp add: mmddFromDateInput_def padStart_def)

section \<open>Properties of quiz.js\<close>











lemma failure_text: "innerText_nodes ''Could not load quiz.'' = [TextNode ''Could not load quiz.'']"
  by (simp add: innerText_nodes_def flush_text_def)








text \<open>
  Claim C7. When the quiz API answers with a status that is not a success, \<open>loadQuiz\<close>
  replaces the content of the quiz area by the text \<open>Could not load quiz.\<close> and
  returns: the body of the response is not read, and the result is no rendering of any
  list of questions. (On a page without a quiz area the assignment throws.)
\<close>

theorem loadQuiz_failure_message:
  assumes "fetch (quiz_url mmdd count) = Resolved res" and "\<not> ok res"
  shows "loadQuiz fetch mmdd count pg =
           (case quiz_area pg of
              None \<Rightarrow> Inl TypeError
            | Some old \<Rightarrow> Inr (pg\<lparr>quiz_area := Some [TextNode ''Could not load quiz.'']\<rparr>))
         \<and> concat (map elements [TextNode ''Could not load quiz.'']) = []
         \<and> (\<forall>qs. loadQuiz fetch mmdd count pg \<noteq> Inr (renderQuiz qs pg))"
proof -
  have a: "loadQuiz fetch mmdd count pg =
           (case quiz_area pg of
              None \<Rightarrow> Inl TypeError
            | Some old \<Rightarrow> Inr (pg\<lparr>quiz_area := Some [TextNode ''Could not load quiz.'']\<rparr>))"
    using assms by (simp add: loadQuiz_def failure_text split: option.splits)
  have b: "loadQuiz fetch mmdd count pg \<noteq> Inr (renderQuiz qs pg)" for qs
  proof (cases "quiz_area pg")
    case None
    then show ?thesis using a by simp
  next
    case (Some old)
    have "quiz_area (renderQuiz qs pg) \<noteq> Some [TextNode ''Could not load quiz.'']"
      using Some by (simp add: renderQuiz_def no_questions_notice_def quiz_form_def el_def)
    moreover have "loadQuiz fetch mmdd count pg = Inr (pg\<lparr>quiz_area := Some [TextNode ''Could not load quiz.'']\<rparr>)"
      using a Some by simp
    ultimately show ?thesis
    proof (intro notI)
      assume eq: "loadQuiz fetch mmdd count pg = Inr (renderQuiz qs pg)"
      assume l: "loadQuiz fetch mmdd count pg = Inr (pg\<lparr>quiz_area := Some [TextNode ''Could not load quiz.'']\<rparr>)"
      assume n: "quiz_area (renderQuiz qs pg) \<noteq> Some [TextNode ''Could not load quiz.'']"
      from eq l have "renderQuiz qs pg = pg\<lparr>quiz_area := Some [TextNode ''Could not load quiz.'']\<rparr>"
        by simp
      then have "quiz_area (renderQuiz qs pg) = Some [TextNode ''Could not load quiz.'']"
        by simp
      with n show False by simp
    qed
  qed
  show ?thesis using a b by simp
qed

theorem loadQuiz_failure_message_witness:
  "loadQuiz (\<lambda>r. Resolved \<lparr>ok = False, json = Inr \<lparr>questions = Some demo_questions\<rparr>\<rparr>) (Some ''07-20'') None
     (demo_page False False False False)
   = Inr \<lparr>before_area = [], quiz_area = Some [TextNode ''Could not load quiz.''], after_area = []\<rparr>"
  using loadQuiz_failure_message
    [of "\<lambda>r. Resolved \<lparr>ok = False, json = Inr \<lparr>questions = Some demo_questions\<rparr>\<rparr>" "Some ''07-20''" None
        "\<lparr>ok = False, json = Inr \<lparr>questions = Some demo_questions\<rparr>\<rparr>" "demo_page False False False False"]
  by (simp add: demo_page_def)

text \<open>
  Claim C8. For an empty list of questions \<open>renderQuiz\<close> replaces whatever the quiz
  area held by the notice \<open>No quiz questions found for this selection.\<close> alone: the
  area then holds no input, no button and no click handler. A response whose
  \<open>questions\<close> is empty or absent is rendered so by \<open>loadQuiz\<close>. (On a page without
  a quiz area \<open>renderQuiz\<close> does nothing.)
\<close>

theorem renderQuiz_empty_notice:
  "renderQuiz [] pg =
     (case quiz_area pg of
        None \<Rightarrow> pg
      | Some old \<Rightarrow> pg\<lparr>quiz_area := Some [no_questions_notice]\<rparr>)
   \<and> no_questions_notice =
       Element ''div'' [(''className'', ''small'')] False None
         [TextNode ''No quiz questions found for this selection.'']
   \<and> filter (\<lambda>e. tag e = ''input'' \<or> tag e = ''button'' \<or> onclick e \<noteq> None)
        (concat (map elements [no_questions_notice])) = []
   \<and> (fetch (quiz_url mmdd count) = Resolved res \<and> ok res
        \<and> (json res = Inr \<lparr>questions = Some []\<rparr> \<or> json res = Inr \<lparr>questions = None\<rparr>)
      \<longrightarrow> loadQuiz fetch mmdd count pg = Inr (renderQuiz [] pg))"
  by (auto simp: renderQuiz_def no_questions_notice_def el_def loadQuiz_def split: option.splits)

theorem renderQuiz_empty_notice_witness:
  "renderQuiz [] (demo_page True False False True)
     = \<lparr>before_area = [], quiz_area = Some [no_questions_notice], after_area = []\<rparr>
   \<and> loadQuiz (\<lambda>r. Resolved \<lparr>ok = True, json = Inr \<lparr>questions = Some []\<rparr>\<rparr>) None None
        (demo_page True False False True)
     = Inr \<lparr>before_area = [], quiz_area = Some [no_questions_notice], after_area = []\<rparr>"
  using renderQuiz_empty_notice
    [of "demo_page True False False True" "\<lambda>r. Resolved \<lparr>ok = True, json = Inr \<lparr>questions = Some []\<rparr>\<rparr>"
        None None "\<lparr>ok = True, json = Inr \<lparr>questions = Some []\<rparr>\<rparr>"]
  by (simp add: demo_page_def)

section \<open>Properties of the model of JSON\<close>

subsection \<open>Strings come back from their quoted text\<close>

lemma hex_digit_value: "d < 16 \<Longrightarrow> digit_value (hex_char d) = Some d"
proof -
  assume "d < 16"
  then have "d = 0 \<or> d = 1 \<or> d = 2 \<or> d = 3 \<or> d = 4 \<or> d = 5 \<or> d = 6 \<or> d = 7 \<or> d = 8
      \<or> d = 9 \<or> d = 10 \<or> d = 11 \<or> d = 12 \<or> d = 13 \<or> d = 14 \<or> d = 15"
    by arith
  then show ?thesis
    by (auto simp: hex_char_def digit_value_def)
qed

lemma hex4_escape:
  assumes "(of_char c :: nat) < 32"
  shows "hex4 (CHR ''0'' # CHR ''0'' # hex_char (of_char c div 16) # hex_char (of_char c mod 16) # r)
           = Some (of_char c)"
proof -
  have d: "(of_char c :: nat) div 16 < 16" using assms by simp
  have m: "(of_char c :: nat) mod 16 < 16" by simp
  have z: "digit_value CHR ''0'' = Some 0" by (simp add: digit_value_def)
  show ?thesis
    using hex_digit_value [OF d] hex_digit_value [OF m] d m
    by (simp add: hex4_def is_digit_of_def digits_value_def z)
qed

lemma parse_chars_quote:
  "parse_chars acc (concat (map quote_char s) @ CHR 0x22 # rest) = Parsed (acc @ s) rest"
proof (induction s arbitrary: acc)
  case Nil
  then show ?case by simp
next
  case (Cons c s)
  show ?case
  proof (cases "c = CHR 0x22 \<or> c = CHR 0x5C \<or> c = CHR 0x08 \<or> c = CHR 0x0C \<or> c = CHR 0x0A
                 \<or> c = CHR 0x0D \<or> c = CHR 0x09")
    case True
    then show ?thesis
      using Cons.IH by (auto simp: quote_char_def unescape_def)
  next
    case False
    show ?thesis
    proof (cases "(of_char c :: nat) < 32")
      case True
      then show ?thesis
        using False Cons.IH hex4_escape [OF True] by (simp add: quote_char_def)
    next
      case ge: False
      then show ?thesis
        using False Cons.IH by (simp add: quote_char_def)
    qed
  qed
qed

subsection \<open>Integers come back from their decimal text\<close>

lemma digit_char_value: "d < 10 \<Longrightarrow> digit_value (digit_char d) = Some d"
proof -
  assume "d < 10"
  then have "d = 0 \<or> d = 1 \<or> d = 2 \<or> d = 3 \<or> d = 4 \<or> d = 5 \<or> d = 6 \<or> d = 7 \<or> d = 8 \<or> d = 9"
    by arith
  then show ?thesis
    by (auto simp: digit_char_def digit_value_def)
qed

lemma digit_char_dec: "d < 10 \<Longrightarrow> is_dec (digit_char d)"
proof -
  assume "d < 10"
  then have "d = 0 \<or> d = 1 \<or> d = 2 \<or> d = 3 \<or> d = 4 \<or> d = 5 \<or> d = 6 \<or> d = 7 \<or> d = 8 \<or> d = 9"
    by arith
  then show ?thesis
    by (auto simp: digit_char_def is_dec_def)
qed

lemma digit_char_zero: "d < 10 \<Longrightarrow> digit_char d = CHR ''0'' \<longleftrightarrow> d = 0"
proof -
  assume "d < 10"
  then have "d = 0 \<or> d = 1 \<or> d = 2 \<or> d = 3 \<or> d = 4 \<or> d = 5 \<or> d = 6 \<or> d = 7 \<or> d = 8 \<or> d = 9"
    by arith
  then show ?thesis
    by (auto simp: digit_char_def)
qed

lemma show_nat_not_Nil: "show_nat k \<noteq> []"
  by (subst show_nat.simps) simp

lemma show_nat_all_dec: "list_all is_dec (show_nat k)"
proof (induction k rule: show_nat.induct)
  case (1 n)
  show ?case
  proof (cases "n < 10")
    case True
    then show ?thesis by (subst show_nat.simps) (simp add: digit_char_dec)
  next
    case False
    then show ?thesis
      using 1 by (subst show_nat.simps) (simp add: digit_char_dec)
  qed
qed

lemma digits_value_snoc:
  "digits_value radix (xs @ [c]) =
     digits_value radix xs * radix + (case digit_value c of None \<Rightarrow> 0 | Some d \<Rightarrow> d)"
  by (simp add: digits_value_def)

lemma digits_value_show_nat: "digits_value 10 (show_nat k) = k"
proof (induction k rule: show_nat.induct)
  case (1 n)
  show ?case
  proof (cases "n < 10")
    case True
    then show ?thesis
      by (subst show_nat.simps) (simp add: digits_value_def digit_char_value)
  next
    case False
    then have "digits_value 10 (show_nat (n div 10)) = n div 10"
      using 1 by simp
    then show ?thesis
      using False by (subst show_nat.simps) (simp add: digits_value_snoc digit_char_value)
  qed
qed

lemma show_nat_hd: "0 < k \<Longrightarrow> hd (show_nat k) \<noteq> CHR ''0''"
proof (induction k rule: show_nat.induct)
  case (1 n)
  show ?case
  proof (cases "n < 10")
    case True
    then show ?thesis
      using 1(2) by (subst show_nat.simps) (simp add: digit_char_zero)
  next
    case False
    then have "hd (show_nat (n div 10)) \<noteq> CHR ''0''"
      using 1 by simp
    then show ?thesis
      using False by (subst show_nat.simps) (simp add: show_nat_not_Nil)
  qed
qed

lemma show_nat_single: "k < 10 \<Longrightarrow> show_nat k = [digit_char k]"
  by (subst show_nat.simps) simp

lemma show_nat_long: "1 < length (show_nat k) \<Longrightarrow> 0 < k"
  by (cases "k = 0") (simp_all add: show_nat_single)

lemma show_nat_hd_dec: "is_dec (hd (show_nat k))"
  using show_nat_all_dec [of k] show_nat_not_Nil [of k]
  by (cases "show_nat k") simp_all

lemma takeWhile_dec_show_nat:
  assumes "number_end rest"
  shows "takeWhile is_dec (show_nat k @ rest) = show_nat k"
    and "dropWhile is_dec (show_nat k @ rest) = rest"
proof -
  have a: "\<forall>x \<in> set (show_nat k). is_dec x"
    using show_nat_all_dec [of k] by (simp add: list_all_iff)
  have b1: "takeWhile is_dec rest = []"
    using assms by (cases rest) (simp_all add: number_end_def)
  have b2: "dropWhile is_dec rest = rest"
    using assms by (cases rest) (simp_all add: number_end_def)
  note b = b1 b2
  show "takeWhile is_dec (show_nat k @ rest) = show_nat k"
    using a b by (simp add: takeWhile_append2)
  show "dropWhile is_dec (show_nat k @ rest) = rest"
    using a b by (simp add: dropWhile_append2)
qed

lemma small_not_overflow: "k < 2 ^ 53 \<Longrightarrow> \<not> overflow_bound \<le> (k::nat)"
  by (simp add: overflow_bound_def)

lemma dash_not_dec: "\<not> is_dec CHR ''-''"
  by (simp add: is_dec_def)

lemma classify_small: "k < 2 ^ 53 \<Longrightarrow> classify False k (Suc 0) = Some (Finite (int k))"
  using small_not_overflow [of k] by (simp add: classify_def)

lemma classify_small_neg: "k < 2 ^ 53 \<Longrightarrow> classify True k (Suc 0) = Some (Finite (- int k))"
  using small_not_overflow [of k] by (simp add: classify_def)

lemma digits_value_Nil: "digits_value radix [] = 0"
  by (simp add: digits_value_def)

lemma parse_number_digits:
  assumes "k < 2 ^ 53" and "number_end rest"
  shows "parse_number (show_nat k @ rest) = Parsed (Finite (int k)) rest"
proof -
  have f1: "(show_nat k @ rest \<noteq> [] \<and> hd (show_nat k @ rest) = CHR ''-'') = False"
    using show_nat_hd_dec [of k] show_nat_not_Nil [of k] dash_not_dec by (cases "show_nat k") auto
  have f3: "(rest \<noteq> [] \<and> hd rest = CHR ''.'') = False"
    using assms(2) by (auto simp: number_end_def)
  have f4: "(rest \<noteq> [] \<and> (hd rest = CHR ''e'' \<or> hd rest = CHR ''E'')) = False"
    using assms(2) by (auto simp: number_end_def)
  have f5: "(1 < length (show_nat k) \<and> hd (show_nat k) = CHR ''0'') = False"
    using show_nat_long [of k] show_nat_hd [of k] by blast
  show ?thesis
    unfolding parse_number_def Let_def
    by (simp only: f1 f3 f4 f5 takeWhile_dec_show_nat [OF assms(2)] if_False if_True
        digits_value_Nil append_Nil2 list.size)
       (simp add: show_nat_not_Nil digits_value_show_nat classify_small [OF assms(1)])
qed

lemma parse_number_neg_digits:
  assumes "k < 2 ^ 53" and "number_end rest"
  shows "parse_number (CHR ''-'' # show_nat k @ rest) = Parsed (Finite (- int k)) rest"
proof -
  have f3: "(rest \<noteq> [] \<and> hd rest = CHR ''.'') = False"
    using assms(2) by (auto simp: number_end_def)
  have f4: "(rest \<noteq> [] \<and> (hd rest = CHR ''e'' \<or> hd rest = CHR ''E'')) = False"
    using assms(2) by (auto simp: number_end_def)
  have f5: "(1 < length (show_nat k) \<and> hd (show_nat k) = CHR ''0'') = False"
    using show_nat_long [of k] show_nat_hd [of k] by blast
  show ?thesis
    unfolding parse_number_def Let_def
    apply (simp only: list.sel list.distinct not_False_eq_True simp_thms if_True)
    apply (simp only: f3 f4 f5 takeWhile_dec_show_nat [OF assms(2)] if_False if_True
        digits_value_Nil append_Nil2 list.size)
    apply (simp add: show_nat_not_Nil digits_value_show_nat classify_small_neg [OF assms(1)])
    done
qed

lemma parse_number_show_int:
  assumes "\<bar>n\<bar> < 2 ^ 53" and "number_end rest"
  shows "parse_number (show_int n @ rest) = Parsed (Finite n) rest"
proof (cases "n < 0")
  case True
  then have "nat (- n) < 2 ^ 53"
    using assms(1) by (simp add: nat_less_iff)
  then show ?thesis
    using True parse_number_neg_digits [OF _ assms(2), of "nat (- n)"] by (simp add: show_int_def)
next
  case False
  then have "nat n < 2 ^ 53"
    using assms(1) by (simp add: nat_less_iff)
  then show ?thesis
    using False parse_number_digits [OF _ assms(2), of "nat n"] by (simp add: show_int_def)
qed

subsection \<open>Values come back from their text\<close>

lemma dec_cases:
  "is_dec c \<Longrightarrow> c = CHR ''0'' \<or> c = CHR ''1'' \<or> c = CHR ''2'' \<or> c = CHR ''3'' \<or> c = CHR ''4''
     \<or> c = CHR ''5'' \<or> c = CHR ''6'' \<or> c = CHR ''7'' \<or> c = CHR ''8'' \<or> c = CHR ''9''"
  by (simp add: is_dec_def)

lemma is_dec_not_space: "is_dec c \<Longrightarrow> \<not> is_json_space c"
  by (drule dec_cases) (auto simp: is_json_space_def)

lemma is_dec_chars:
  assumes "is_dec c"
  shows "c \<noteq> CHR 0x22 \<and> c \<noteq> CHR ''['' \<and> c \<noteq> CHR ''{'' \<and> c \<noteq> CHR ''n'' \<and> c \<noteq> CHR ''t''
     \<and> c \<noteq> CHR ''f'' \<and> c \<noteq> CHR '','' \<and> c \<noteq> CHR '']'' \<and> c \<noteq> CHR ''}'' \<and> c \<noteq> CHR ''.''
     \<and> c \<noteq> CHR ''e'' \<and> c \<noteq> CHR ''E'' \<and> c \<noteq> CHR ''-'' \<and> c \<noteq> CHR '':''"
  using dec_cases [OF assms] by (elim disjE) simp_all

lemma value_start_chars:
  assumes "value_start c"
  shows "\<not> is_json_space c \<and> c \<noteq> CHR '']'' \<and> c \<noteq> CHR ''}'' \<and> c \<noteq> CHR '',''"
proof (cases "is_dec c")
  case True
  then show ?thesis
    using is_dec_chars [of c] is_dec_not_space [of c] by simp
next
  case False
  then have "c = CHR 0x22 \<or> c = CHR ''['' \<or> c = CHR ''{'' \<or> c = CHR ''-''
      \<or> c = CHR ''n'' \<or> c = CHR ''t'' \<or> c = CHR ''f''"
    using assms by (simp add: value_start_def)
  then show ?thesis
    by (elim disjE) (simp_all add: is_json_space_def)
qed

lemma follow_ok_number_end:
  assumes "follow_ok rest"
  shows "number_end rest"
proof (cases "rest = []")
  case True
  then show ?thesis by (simp add: number_end_def)
next
  case False
  then have h: "hd rest = CHR '','' \<or> hd rest = CHR '']'' \<or> hd rest = CHR ''}''
      \<or> hd rest = CHR 0x20 \<or> hd rest = CHR 0x09 \<or> hd rest = CHR 0x0A \<or> hd rest = CHR 0x0D"
    using assms by (auto simp: follow_ok_def is_json_space_def)
  have "\<not> is_dec (hd rest) \<and> hd rest \<noteq> CHR ''.'' \<and> hd rest \<noteq> CHR ''e'' \<and> hd rest \<noteq> CHR ''E''"
    using h by (elim disjE) (simp_all add: is_dec_def)
  then show ?thesis by (simp add: number_end_def)
qed

lemma show_int_start: "\<exists>c cs. show_int n = c # cs \<and> (c = CHR ''-'' \<or> is_dec c)"
proof (cases "n < 0")
  case True
  then show ?thesis by (simp add: show_int_def)
next
  case False
  obtain c cs where "show_nat (nat n) = c # cs"
    using show_nat_not_Nil [of "nat n"] by (cases "show_nat (nat n)") auto
  moreover from this have "is_dec c"
    using show_nat_hd_dec [of "nat n"] by simp
  ultimately show ?thesis
    using False by (simp add: show_int_def)
qed

lemma serialize_start: "\<exists>c cs. serialize gap ind v = c # cs \<and> value_start c"
proof (cases v)
  case (JNum x)
  show ?thesis
  proof (cases x)
    case (Finite n)
    obtain c cs where "show_int n = c # cs" "c = CHR ''-'' \<or> is_dec c"
      using show_int_start [of n] by blast
    then show ?thesis
      using JNum Finite by (auto simp: value_start_def)
  qed (simp_all add: JNum value_start_def)
qed (auto simp: value_start_def quote_def)

lemma skip_space_spaces:
  assumes "spaces w" and "\<not> is_json_space c"
  shows "skip_space (w @ c # cs) = c # cs"
  using assms by (simp add: skip_space_def spaces_def list_all_iff dropWhile_append2)

lemma skip_space_head: "\<not> is_json_space c \<Longrightarrow> skip_space (c # cs) = c # cs"
  by (simp add: skip_space_def)

lemma join_Cons: "xs \<noteq> [] \<Longrightarrow> join sep (x # xs) = x @ sep @ join sep xs"
  by (cases xs) simp_all

lemma spaces_simps: "spaces []" "spaces (c # w) = (is_json_space c \<and> spaces w)"
  "spaces (u @ w) = (spaces u \<and> spaces w)"
  by (auto simp: spaces_def)

lemma skip_space_to:
  assumes "spaces w" and "\<not> is_json_space c"
  shows "skip_space (w @ c # cs) = c # cs"
  using assms by (rule skip_space_spaces)

lemma follow_ok_close: "spaces cw \<Longrightarrow> follow_ok (cw @ CHR '']'' # rest)" "spaces cw \<Longrightarrow> follow_ok (cw @ CHR ''}'' # rest)"
  by (cases cw; simp add: follow_ok_def spaces_def)+

lemma follow_ok_comma: "follow_ok (CHR '','' # rest)"
  by (simp add: follow_ok_def)

lemma pv_null:
  assumes "spaces w"
  shows "parse_value (Suc n) (w @ ''null'' @ rest) = Parsed JNull rest"
proof -
  have "skip_space (w @ CHR ''n'' # ''ull'' @ rest) = CHR ''n'' # ''ull'' @ rest"
    using assms by (rule skip_space_to) (simp add: is_json_space_def)
  then show ?thesis by simp
qed

lemma pv_true:
  assumes "spaces w"
  shows "parse_value (Suc n) (w @ ''true'' @ rest) = Parsed (JBool True) rest"
proof -
  have "skip_space (w @ CHR ''t'' # ''rue'' @ rest) = CHR ''t'' # ''rue'' @ rest"
    using assms by (rule skip_space_to) (simp add: is_json_space_def)
  then show ?thesis by simp
qed

lemma pv_false:
  assumes "spaces w"
  shows "parse_value (Suc n) (w @ ''false'' @ rest) = Parsed (JBool False) rest"
proof -
  have "skip_space (w @ CHR ''f'' # ''alse'' @ rest) = CHR ''f'' # ''alse'' @ rest"
    using assms by (rule skip_space_to) (simp add: is_json_space_def)
  then show ?thesis by simp
qed

lemma pv_str:
  assumes "spaces w"
  shows "parse_value (Suc n) (w @ quote s @ rest) = Parsed (JStr s) rest"
proof -
  have "skip_space (w @ CHR 0x22 # concat (map quote_char s) @ CHR 0x22 # rest)
          = CHR 0x22 # concat (map quote_char s) @ CHR 0x22 # rest"
    using assms by (rule skip_space_to) (simp add: is_json_space_def)
  then show ?thesis
    by (simp add: quote_def parse_chars_quote)
qed

lemma pv_num:
  assumes "spaces w" and "\<bar>k\<bar> < 2 ^ 53" and "follow_ok rest"
  shows "parse_value (Suc n) (w @ show_int k @ rest) = Parsed (JNum (Finite k)) rest"
proof -
  obtain c cs where s: "show_int k = c # cs" and c: "c = CHR ''-'' \<or> is_dec c"
    using show_int_start [of k] by blast
  have vs: "value_start c"
    using c by (auto simp: value_start_def)
  have ns: "\<not> is_json_space c"
    using value_start_chars [OF vs] by simp
  have ne: "c \<noteq> CHR 0x22" "c \<noteq> CHR ''[''" "c \<noteq> CHR ''{''" "c \<noteq> CHR ''n''" "c \<noteq> CHR ''t''" "c \<noteq> CHR ''f''"
    using c is_dec_chars [of c] by auto
  have sk: "skip_space (w @ c # cs @ rest) = c # cs @ rest"
    using assms(1) ns by (rule skip_space_to)
  have pn: "parse_number (c # cs @ rest) = Parsed (Finite k) rest"
    using parse_number_show_int [OF assms(2) follow_ok_number_end [OF assms(3)]] s by simp
  show ?thesis
    using c by (simp add: s sk ne pn)
qed

lemma put_prop_fresh: "k \<notin> fst ` set acc \<Longrightarrow> put_prop k v acc = acc @ [(k, v)]"
  by (induction acc) auto

lemma parse_elements_join:
  assumes "xs \<noteq> []"
    and "spaces w" and "spaces sw" and "spaces cw"
    and "sum_list (map (\<lambda>x. Suc (need x)) xs) \<le> n"
    and "\<And>x n w rest. x \<in> set xs \<Longrightarrow> need x \<le> n \<Longrightarrow> spaces w \<Longrightarrow> follow_ok rest
            \<Longrightarrow> parse_value n (w @ f x @ rest) = Parsed x rest"
  shows "parse_elements n acc (w @ join (CHR '','' # sw) (map f xs) @ cw @ CHR '']'' # rest)
           = Parsed (JArr (acc @ xs)) rest"
  using assms
proof (induction xs arbitrary: acc n w rule: list_nonempty_induct)
  case (single x)
  from single(4) obtain m where n: "n = Suc m" and m: "need x \<le> m"
    by (cases n) auto
  have pv: "parse_value m (w @ f x @ cw @ CHR '']'' # rest) = Parsed x (cw @ CHR '']'' # rest)"
    using single(5) [of x m w "cw @ CHR '']'' # rest"] m single(1) follow_ok_close(1) [OF single(3)]
    by simp
  have sk: "skip_space (cw @ CHR '']'' # rest) = CHR '']'' # rest"
    using single(3) by (rule skip_space_to) (simp add: is_json_space_def)
  show ?case
    by (simp add: n pv sk)
next
  case (cons x xs)
  from cons(6) obtain m where n: "n = Suc m" and m: "need x \<le> m"
    and ms: "sum_list (map (\<lambda>x. Suc (need x)) xs) \<le> m"
    by (cases n) auto
  let ?tail = "sw @ join (CHR '','' # sw) (map f xs) @ cw @ CHR '']'' # rest"
  have pv: "parse_value m (w @ f x @ CHR '','' # ?tail) = Parsed x (CHR '','' # ?tail)"
    using cons(7) [of x m w "CHR '','' # ?tail"] m cons(3) follow_ok_comma by simp
  have sk: "skip_space (CHR '','' # ?tail) = CHR '','' # ?tail"
    by (rule skip_space_head) (simp add: is_json_space_def)
  have rec: "parse_elements m (acc @ [x]) ?tail = Parsed (JArr ((acc @ [x]) @ xs)) rest"
    using cons(2) [of sw m "acc @ [x]"] cons(4) cons(5) ms cons(7) by simp
  show ?case
    using cons(1) by (simp add: n join_Cons pv sk rec)
qed

lemma parse_members_join:
  assumes "kvs \<noteq> []"
    and "spaces w" and "spaces sw" and "spaces cw" and "spaces sp"
    and "sum_list (map (\<lambda>kv. Suc (need (snd kv))) kvs) \<le> n"
    and "distinct (map fst (acc @ kvs))"
    and "\<forall>kv \<in> set kvs. \<not> is_array_index (fst kv)"
    and "\<And>kv n w rest. kv \<in> set kvs \<Longrightarrow> need (snd kv) \<le> n \<Longrightarrow> spaces w \<Longrightarrow> follow_ok rest
            \<Longrightarrow> parse_value n (w @ f (snd kv) @ rest) = Parsed (snd kv) rest"
  shows "parse_members n acc
           (w @ join (CHR '','' # sw) (map (\<lambda>kv. quote (fst kv) @ CHR '':'' # sp @ f (snd kv)) kvs)
              @ cw @ CHR ''}'' # rest)
           = Parsed (JObj (acc @ kvs)) rest"
  using assms
proof (induction kvs arbitrary: acc n w rule: list_nonempty_induct)
  case (single kv)
  obtain k v where kv: "kv = (k, v)" by (cases kv)
  from single(5) obtain m where n: "n = Suc m" and m: "need v \<le> m"
    by (cases n) (auto simp: kv)
  let ?after = "cw @ CHR ''}'' # rest"
  have sk1: "skip_space (w @ CHR 0x22 # concat (map quote_char k) @ CHR 0x22 # CHR '':'' # sp @ f v @ ?after)
               = CHR 0x22 # concat (map quote_char k) @ CHR 0x22 # CHR '':'' # sp @ f v @ ?after"
    using single(1) by (rule skip_space_to) (simp add: is_json_space_def)
  have pc: "parse_chars [] (concat (map quote_char k) @ CHR 0x22 # CHR '':'' # sp @ f v @ ?after)
              = Parsed k (CHR '':'' # sp @ f v @ ?after)"
    using parse_chars_quote [of "[]" k] by simp
  have sk2: "skip_space (CHR '':'' # sp @ f v @ ?after) = CHR '':'' # sp @ f v @ ?after"
    by (rule skip_space_head) (simp add: is_json_space_def)
  have pv: "parse_value m (sp @ f v @ ?after) = Parsed v ?after"
    using single(8) [of kv m sp ?after] m single(4) follow_ok_close(2) [OF single(3)]
    by (simp add: kv)
  have sk3: "skip_space ?after = CHR ''}'' # rest"
    using single(3) by (rule skip_space_to) (simp add: is_json_space_def)
  have fresh: "put_prop k v acc = acc @ [(k, v)]"
    using single(6) by (intro put_prop_fresh) (auto simp: kv)
  have idx: "\<not> is_array_index k"
    using single(7) by (simp add: kv)
  show ?case
    by (simp add: n kv quote_def sk1 pc sk2 pv sk3 fresh idx)
next
  case (cons kv kvs)
  obtain k v where kv: "kv = (k, v)" by (cases kv)
  from cons(7) obtain m where n: "n = Suc m" and m: "need v \<le> m"
    and ms: "sum_list (map (\<lambda>kv. Suc (need (snd kv))) kvs) \<le> m"
    by (cases n) (auto simp: kv)
  let ?g = "\<lambda>kv. quote (fst kv) @ CHR '':'' # sp @ f (snd kv)"
  let ?tail = "sw @ join (CHR '','' # sw) (map ?g kvs) @ cw @ CHR ''}'' # rest"
  let ?after = "CHR '','' # ?tail"
  have sk1: "skip_space (w @ CHR 0x22 # concat (map quote_char k) @ CHR 0x22 # CHR '':'' # sp @ f v @ ?after)
               = CHR 0x22 # concat (map quote_char k) @ CHR 0x22 # CHR '':'' # sp @ f v @ ?after"
    using cons(3) by (rule skip_space_to) (simp add: is_json_space_def)
  have pc: "parse_chars [] (concat (map quote_char k) @ CHR 0x22 # CHR '':'' # sp @ f v @ ?after)
              = Parsed k (CHR '':'' # sp @ f v @ ?after)"
    using parse_chars_quote [of "[]" k] by simp
  have sk2: "skip_space (CHR '':'' # sp @ f v @ ?after) = CHR '':'' # sp @ f v @ ?after"
    by (rule skip_space_head) (simp add: is_json_space_def)
  have pv: "parse_value m (sp @ f v @ ?after) = Parsed v ?after"
    using cons(10) [of kv m sp ?after] m cons(6) follow_ok_comma
    by (simp add: kv)
  have sk3: "skip_space ?after = ?after"
    by (rule skip_space_head) (simp add: is_json_space_def)
  have fresh: "put_prop k v acc = acc @ [(k, v)]"
    using cons(8) by (intro put_prop_fresh) (auto simp: kv)
  have idx: "\<not> is_array_index k"
    using cons(9) by (simp add: kv)
  have qk: "quote k = CHR 0x22 # concat (map quote_char k) @ [CHR 0x22]"
    by (simp add: quote_def)
  have rec: "parse_members m (acc @ [(k, v)]) ?tail = Parsed (JObj ((acc @ [(k, v)]) @ kvs)) rest"
    using cons(2) [of sw m "acc @ [(k, v)]"] cons(4) cons(5) cons(6) ms cons(8) cons(9) cons(10)
    by (simp add: kv)
  show ?case
    using cons(1) by (simp add: n kv join_Cons qk sk1 pc sk2 pv sk3 fresh idx rec)
qed

lemma join_start:
  assumes "xs \<noteq> []" and "\<And>x. x \<in> set xs \<Longrightarrow> \<exists>c cs. f x = c # cs \<and> P c"
  shows "\<exists>c cs. join sep (map f xs) = c # cs \<and> P c"
proof (cases xs)
  case Nil
  then show ?thesis using assms(1) by simp
next
  case (Cons x ys)
  obtain c cs where "f x = c # cs" "P c"
    using assms(2) [of x] Cons by auto
  then show ?thesis
    using Cons by (cases ys) auto
qed

lemma parse_value_serialize:
  assumes "representable v" and "spaces gap" and "spaces ind" and "spaces w" and "follow_ok rest"
    and "need v \<le> n"
  shows "parse_value n (w @ serialize gap ind v @ rest) = Parsed v rest"
  using assms
proof (induction v arbitrary: n w rest ind)
  case JNull
  then obtain m where n: "n = Suc m" by (cases n) auto
  show ?case
    using pv_null [OF JNull(4), of m rest] by (simp add: n)
next
  case (JBool b)
  then obtain m where n: "n = Suc m" by (cases n) auto
  show ?case
    using pv_true [OF JBool(4), of m rest] pv_false [OF JBool(4), of m rest]
    by (cases b) (simp_all add: n)
next
  case (JNum x)
  then obtain m where n: "n = Suc m" by (cases n) auto
  from JNum(1) obtain k where x: "x = Finite k" and k: "\<bar>k\<bar> < 2 ^ 53"
    by (cases x) auto
  show ?case
    using pv_num [OF JNum(4) k JNum(5), of m] by (simp add: n x)
next
  case (JStr s)
  then obtain m where n: "n = Suc m" by (cases n) auto
  show ?case
    using pv_str [OF JStr(4), of m s rest] by (simp add: n)
next
  case (JArr xs)
  from JArr(7) obtain m where n: "n = Suc m" and m: "sum_list (map (\<lambda>x. Suc (need x)) xs) \<le> m"
    by (cases n) auto
  show ?case
  proof (cases "xs = []")
    case True
    have sk1: "skip_space (w @ CHR ''['' # CHR '']'' # rest) = CHR ''['' # CHR '']'' # rest"
      using JArr(5) by (rule skip_space_to) (simp add: is_json_space_def)
    have sk2: "skip_space (CHR '']'' # rest) = CHR '']'' # rest"
      by (rule skip_space_head) (simp add: is_json_space_def)
    show ?thesis
      by (simp add: True n sk1 sk2)
  next
    case False
    define w0 where "w0 = (if gap = [] then [] else CHR 0x0A # ind @ gap)"
    define cw where "cw = (if gap = [] then [] else CHR 0x0A # ind)"
    define J where "J = join (CHR '','' # w0) (map (serialize gap (ind @ gap)) xs)"
    have sp: "spaces w0" "spaces cw" "spaces (ind @ gap)"
      using JArr(3,4) by (simp_all add: w0_def cw_def spaces_simps is_json_space_def)
    have ser: "serialize gap ind (JArr xs) = CHR ''['' # w0 @ J @ cw @ '']''"
      using False by (simp add: w0_def cw_def J_def)
    obtain d ds where J: "J = d # ds" and d: "value_start d"
      unfolding J_def using join_start [OF False, of "serialize gap (ind @ gap)" value_start]
        serialize_start by blast
    have nd: "\<not> is_json_space d" "d \<noteq> CHR '']''"
      using value_start_chars [OF d] by simp_all
    have sk1: "skip_space (w @ CHR ''['' # w0 @ d # ds @ cw @ CHR '']'' # rest)
                 = CHR ''['' # w0 @ d # ds @ cw @ CHR '']'' # rest"
      using JArr(5) by (rule skip_space_to) (simp add: is_json_space_def)
    have sk2: "skip_space (w0 @ d # ds @ cw @ CHR '']'' # rest) = d # ds @ cw @ CHR '']'' # rest"
      using sp(1) nd(1) by (rule skip_space_to)
    have el: "parse_elements m [] ([] @ J @ cw @ CHR '']'' # rest) = Parsed (JArr ([] @ xs)) rest"
      unfolding J_def
    proof (rule parse_elements_join [OF False _ sp(1) sp(2) m])
      show "spaces []" by (simp add: spaces_simps)
    next
      fix x n' w' rest'
      assume "x \<in> set xs" "need x \<le> n'" "spaces w'" "follow_ok rest'"
      then show "parse_value n' (w' @ serialize gap (ind @ gap) x @ rest') = Parsed x rest'"
        using JArr(1) [of x "ind @ gap" w' rest' n'] JArr(2) JArr(3) sp(3)
        by (simp add: list_all_iff)
    qed
    show ?thesis
      unfolding ser using el nd by (simp add: n J sk1 sk2 del: serialize.simps)
  qed
next
  case (JObj kvs)
  from JObj(7) obtain m where n: "n = Suc m"
    and m: "sum_list (map (\<lambda>kv. Suc (need (snd kv))) kvs) \<le> m"
    by (cases n) auto
  show ?case
  proof (cases "kvs = []")
    case True
    have sk1: "skip_space (w @ CHR ''{'' # CHR ''}'' # rest) = CHR ''{'' # CHR ''}'' # rest"
      using JObj(5) by (rule skip_space_to) (simp add: is_json_space_def)
    have sk2: "skip_space (CHR ''}'' # rest) = CHR ''}'' # rest"
      by (rule skip_space_head) (simp add: is_json_space_def)
    show ?thesis
      by (simp add: True n sk1 sk2)
  next
    case False
    define w0 where "w0 = (if gap = [] then [] else CHR 0x0A # ind @ gap)"
    define cw where "cw = (if gap = [] then [] else CHR 0x0A # ind)"
    define sp where "sp = (if gap = [] then [] else '' '')"
    define g where "g = (\<lambda>kv. quote (fst kv) @ CHR '':'' # sp @ serialize gap (ind @ gap) (snd kv))"
    define J where "J = join (CHR '','' # w0) (map g kvs)"
    have sps: "spaces w0" "spaces cw" "spaces (ind @ gap)" "spaces sp"
      using JObj(3,4) by (simp_all add: w0_def cw_def sp_def spaces_simps is_json_space_def)
    have ser: "serialize gap ind (JObj kvs) = CHR ''{'' # w0 @ J @ cw @ ''}''"
      using False by (simp add: w0_def cw_def J_def g_def sp_def)
    have "\<exists>c cs. g kv = c # cs \<and> c = CHR 0x22" for kv
      by (simp add: g_def quote_def)
    then obtain d ds where J: "J = d # ds" and d: "d = CHR 0x22"
      unfolding J_def using join_start [OF False, of g "\<lambda>c. c = CHR 0x22"] by blast
    have J': "J = CHR 0x22 # ds"
      using J d by simp
    have sk1: "skip_space (w @ CHR ''{'' # w0 @ CHR 0x22 # ds @ cw @ CHR ''}'' # rest)
                 = CHR ''{'' # w0 @ CHR 0x22 # ds @ cw @ CHR ''}'' # rest"
      using JObj(5) by (rule skip_space_to) (simp add: is_json_space_def)
    have sk2: "skip_space (w0 @ CHR 0x22 # ds @ cw @ CHR ''}'' # rest)
                 = CHR 0x22 # ds @ cw @ CHR ''}'' # rest"
      using sps(1) by (rule skip_space_to) (simp add: is_json_space_def)
    have keys: "distinct (map fst ([] @ kvs))" "\<forall>kv \<in> set kvs. \<not> is_array_index (fst kv)"
      using JObj(2) by (simp_all add: list_all_iff)
    have el: "parse_members m [] ([] @ J @ cw @ CHR ''}'' # rest) = Parsed (JObj ([] @ kvs)) rest"
      unfolding J_def g_def
    proof (rule parse_members_join [OF False _ sps(1) sps(2) sps(4) m keys])
      show "spaces []" by (simp add: spaces_simps)
    next
      fix kv n' w' rest'
      assume a: "kv \<in> set kvs" "need (snd kv) \<le> n'" "spaces w'" "follow_ok rest'"
      have "snd kv \<in> Basic_BNFs.snds kv"
        by (cases kv) simp
      moreover have "representable (snd kv)"
        using JObj(2) a(1) by (simp add: list_all_iff)
      ultimately show "parse_value n' (w' @ serialize gap (ind @ gap) (snd kv) @ rest') = Parsed (snd kv) rest'"
        using JObj(1) [of kv "snd kv" "ind @ gap" w' rest' n'] a JObj(3) sps(3)
        by simp
    qed
    show ?thesis
      unfolding ser using el by (simp add: n J' sk1 sk2 del: serialize.simps)
  qed
qed

lemma need_join:
  assumes "\<And>x. x \<in> set xs \<Longrightarrow> g x \<le> length (f x)" and "sep \<noteq> []"
  shows "sum_list (map (\<lambda>x. Suc (g x)) xs) \<le> Suc (length (join sep (map f xs)))"
  using assms
proof (induction xs rule: induct_list012)
  case 1
  then show ?case by simp
next
  case (2 x)
  then show ?case by simp
next
  case (3 x y zs)
  have "sum_list (map (\<lambda>x. Suc (g x)) (y # zs)) \<le> Suc (length (join sep (map f (y # zs))))"
    using 3 by simp
  moreover have "g x \<le> length (f x)"
    using 3(3) by simp
  moreover have "1 \<le> length sep"
    using 3(4) by (cases sep) simp_all
  ultimately show ?case by simp
qed

lemma need_le_length: "need v \<le> length (serialize gap ind v)"
proof (induction v arbitrary: ind)
  case (JNum x)
  show ?case
  proof (cases x)
    case (Finite k)
    obtain c cs where "show_int k = c # cs"
      using show_int_start [of k] by blast
    then show ?thesis by (simp add: Finite)
  qed simp_all
next
  case (JArr xs)
  have "sum_list (map (\<lambda>x. Suc (need x)) xs)
          \<le> Suc (length (join sep (map (serialize gap (ind @ gap)) xs)))" if "sep \<noteq> []" for sep
    using JArr that by (intro need_join) simp_all
  from this [of "'',''"] this [of "CHR '','' # CHR 0x0A # ind @ gap"]
  show ?case by auto
next
  case (JObj kvs)
  have "sum_list (map (\<lambda>kv. Suc (need (snd kv))) kvs)
          \<le> Suc (length (join sep (map (\<lambda>kv. quote (fst kv) @ c @ serialize gap (ind @ gap) (snd kv)) kvs)))"
    if "sep \<noteq> []" for sep c
  proof (intro need_join that)
    fix kv assume "kv \<in> set kvs"
    moreover have "snd kv \<in> Basic_BNFs.snds kv" by (cases kv) simp
    ultimately have "need (snd kv) \<le> length (serialize gap (ind @ gap) (snd kv))"
      using JObj by blast
    then show "need (snd kv) \<le> length (quote (fst kv) @ c @ serialize gap (ind @ gap) (snd kv))"
      by simp
  qed
  from this [of "'',''" "'':''"] this [of "CHR '','' # CHR 0x0A # ind @ gap" "'': ''"]
  show ?case by auto
qed (simp_all add: quote_def)

theorem json_parse_stringify:
  assumes "representable v"
  shows "json_parse (json_stringify v n) = Some (Inr v)"
proof -
  let ?gap = "replicate (min n 10) CHR '' ''"
  have g: "spaces ?gap"
    by (simp add: spaces_def list_all_iff is_json_space_def)
  have "parse_value (Suc (2 * length (serialize ?gap [] v))) ([] @ serialize ?gap [] v @ [])
          = Parsed v []"
    using assms g
  proof (rule parse_value_serialize)
    show "spaces []" "spaces []" by (simp_all add: spaces_simps)
    show "follow_ok []" by (simp add: follow_ok_def)
    show "need v \<le> Suc (2 * length (serialize ?gap [] v))"
      using need_le_length [of v ?gap "[]"] by simp
  qed
  then show ?thesis
    by (simp add: json_parse_def json_stringify_def skip_space_def)
qed

subsection \<open>The parser does not run out of fuel\<close>

text \<open>
  A step of the parser leaves a rest that is no longer than its text, and the fuel
  falls by at most two units for each character read.
\<close>

lemma skip_space_length: "length (skip_space s) \<le> length s"
  by (simp add: skip_space_def length_dropWhile_le)

lemma skip_space_Cons_length: "skip_space s = c # cs \<Longrightarrow> length cs < length s"
  using skip_space_length [of s] by simp

lemma parse_chars_rest: "parse_chars acc s = Parsed k r \<Longrightarrow> length r < length s"
proof (induction acc s rule: parse_chars.induct)
  case (1 acc)
  then show ?case by simp
next
  case (2 acc c cs)
  show ?case
  proof (cases "c = CHR 0x22")
    case True
    then show ?thesis using 2(4) by simp
  next
    case quote: False
    show ?thesis
    proof (cases "c = CHR 0x5C")
      case True
      show ?thesis
      proof (cases cs)
        case Nil
        then show ?thesis using 2(4) quote True by simp
      next
        case (Cons e es)
        show ?thesis
        proof (cases "e = CHR ''u''")
          case u: True
          show ?thesis
          proof (cases "hex4 es")
            case None
            then show ?thesis using 2(4) quote True Cons u by simp
          next
            case (Some code)
            show ?thesis
            proof (cases "code < 256")
              case small: True
              then have "parse_chars (acc @ [char_of code]) (drop 4 es) = Parsed k r"
                using 2(4) quote True Cons u Some by simp
              then have "length r < length (drop 4 es)"
                using 2(1) [OF quote True Cons u Some small] by simp
              then show ?thesis using Cons by simp
            next
              case False
              then show ?thesis using 2(4) quote True Cons u Some by simp
            qed
          qed
        next
          case nu: False
          show ?thesis
          proof (cases "unescape e")
            case None
            then show ?thesis using 2(4) quote True Cons nu by simp
          next
            case (Some ch)
            then have "parse_chars (acc @ [ch]) es = Parsed k r"
              using 2(4) quote True Cons nu by simp
            then have "length r < length es"
              using 2(2) [OF quote True Cons nu Some] by simp
            then show ?thesis using Cons by simp
          qed
        qed
      qed
    next
      case plain: False
      show ?thesis
      proof (cases "(of_char c :: nat) < 32")
        case True
        then show ?thesis using 2(4) quote plain by simp
      next
        case False
        then have "parse_chars (acc @ [c]) cs = Parsed k r"
          using 2(4) quote plain by simp
        then have "length r < length cs"
          using 2(3) [OF quote plain False] by simp
        then show ?thesis by simp
      qed
    qed
  qed
qed

lemma parse_chars_fuel: "parse_chars acc s \<noteq> NoFuel"
  by (induction acc s rule: parse_chars.induct) (auto split: list.splits option.splits)

lemma classified_rest:
  "(if c then Malformed
    else (case classify neg num den of None \<Rightarrow> Beyond | Some y \<Rightarrow> Parsed y t)) = Parsed x r
   \<Longrightarrow> r = t"
  by (auto split: if_splits option.splits)

lemma classified_fuel:
  "(if c then Malformed
    else (case classify neg num den of None \<Rightarrow> Beyond | Some y \<Rightarrow> Parsed y t)) \<noteq> NoFuel"
  by (auto split: if_splits option.splits)

lemma parse_number_fuel: "parse_number s \<noteq> NoFuel"
  unfolding parse_number_def Let_def by (rule classified_fuel)

lemma length_tl_if: "length (if b then tl s else s) \<le> length s"
  by simp

lemma parse_number_rest:
  assumes "parse_number s = Parsed x r"
  shows "length r \<le> length s"
proof -
  define s1 where "s1 = (if s \<noteq> [] \<and> hd s = CHR ''-'' then tl s else s)"
  define s2 where "s2 = dropWhile is_dec s1"
  define s3 where "s3 = (if s2 \<noteq> [] \<and> hd s2 = CHR ''.'' then dropWhile is_dec (tl s2) else s2)"
  define s4 where "s4 = (if s3 \<noteq> [] \<and> (hd s3 = CHR ''e'' \<or> hd s3 = CHR ''E'') then tl s3 else s3)"
  define s5 where "s5 = (if (s3 \<noteq> [] \<and> (hd s3 = CHR ''e'' \<or> hd s3 = CHR ''E'')) \<and> s4 \<noteq> []
                            \<and> (hd s4 = CHR ''-'' \<or> hd s4 = CHR ''+'') then tl s4 else s4)"
  define s6 where "s6 = (if s3 \<noteq> [] \<and> (hd s3 = CHR ''e'' \<or> hd s3 = CHR ''E'')
                         then dropWhile is_dec s5 else s3)"
  have 1: "length s1 \<le> length s"
    unfolding s1_def by (rule length_tl_if)
  have 2: "length s2 \<le> length s1"
    unfolding s2_def by (rule length_dropWhile_le)
  have "length (dropWhile is_dec (tl s2)) \<le> length s2"
    using length_dropWhile_le [of is_dec "tl s2"] by simp
  then have 3: "length s3 \<le> length s2"
    unfolding s3_def by simp
  have 4: "length s4 \<le> length s3"
    unfolding s4_def by (rule length_tl_if)
  have 5: "length s5 \<le> length s4"
    unfolding s5_def by (rule length_tl_if)
  have "length (dropWhile is_dec s5) \<le> length s3"
    using length_dropWhile_le [of is_dec s5] 4 5 by simp
  then have 6: "length s6 \<le> length s3"
    unfolding s6_def by simp
  have "r = s6"
    using assms [unfolded parse_number_def Let_def, THEN classified_rest]
    unfolding s6_def s5_def s4_def s3_def s2_def s1_def by simp
  then show ?thesis
    using 1 2 3 6 by simp
qed

lemma parse_rest:
  "(parse_value n s = Parsed v r \<longrightarrow> length r \<le> length s)"
  "(parse_elements n xs s = Parsed v r \<longrightarrow> length r \<le> length s)"
  "(parse_members n kvs s = Parsed v r \<longrightarrow> length r \<le> length s)"
proof (induction n s and n xs s and n kvs s arbitrary: v r and v r and v r
    rule: parse_value_parse_elements_parse_members.induct)
  case (1 s)
  then show ?case by simp
next
  case (2 n s)
  show ?case
  proof
    assume a: "parse_value (Suc n) s = Parsed v r"
    show "length r \<le> length s"
    proof (cases "skip_space s")
      case Nil
      then show ?thesis using a by simp
    next
      case (Cons c cs)
      have len: "length cs < length s"
        using Cons by (rule skip_space_Cons_length)
      have "c = CHR 0x22 \<or> (c \<noteq> CHR 0x22 \<and> c = CHR ''['')
          \<or> (c \<noteq> CHR 0x22 \<and> c \<noteq> CHR ''['' \<and> c = CHR ''{'')
          \<or> (c \<noteq> CHR 0x22 \<and> c \<noteq> CHR ''['' \<and> c \<noteq> CHR ''{'')"
        by (cases "c = CHR 0x22"; cases "c = CHR ''[''"; cases "c = CHR ''{''"; simp)
      then consider (str) "c = CHR 0x22" | (arr) "c \<noteq> CHR 0x22" "c = CHR ''[''"
        | (obj) "c \<noteq> CHR 0x22" "c \<noteq> CHR ''[''" "c = CHR ''{''"
        | (other) "c \<noteq> CHR 0x22" "c \<noteq> CHR ''[''" "c \<noteq> CHR ''{''"
        by (elim disjE conjE)
      then show ?thesis
      proof cases
        case str
        then obtain k where "parse_chars [] cs = Parsed k r"
          using a Cons by (auto split: parsed.splits)
        then show ?thesis
          using parse_chars_rest [of "[]" cs k r] len by simp
      next
        case arr
        show ?thesis
        proof (cases "skip_space cs")
          case Nil
          then show ?thesis using a Cons arr by simp
        next
          case inner: (Cons d ds)
          have dl: "length ds < length cs"
            using inner by (rule skip_space_Cons_length)
          show ?thesis
          proof (cases "d = CHR '']''")
            case True
            then have "r = ds" using a Cons arr inner by auto
            then show ?thesis using dl len by simp
          next
            case False
            then have "parse_elements n [] (d # ds) = Parsed v r"
              using a Cons arr inner by simp
            then have "length r \<le> length (d # ds)"
              using "2.IH"(1) [OF Cons arr(1) arr(2) inner False, of v r] by simp
            then show ?thesis using dl len by simp
          qed
        qed
      next
        case obj
        show ?thesis
        proof (cases "skip_space cs")
          case Nil
          then show ?thesis using a Cons obj by simp
        next
          case inner: (Cons d ds)
          have dl: "length ds < length cs"
            using inner by (rule skip_space_Cons_length)
          show ?thesis
          proof (cases "d = CHR ''}''")
            case True
            then have "r = ds" using a Cons obj inner by auto
            then show ?thesis using dl len by simp
          next
            case False
            then have "parse_members n [] (d # ds) = Parsed v r"
              using a Cons obj inner by simp
            then have "length r \<le> length (d # ds)"
              using "2.IH"(2) [OF Cons obj(1) obj(2) obj(3) inner False, of v r] by simp
            then show ?thesis using dl len by simp
          qed
        qed
      next
        case other
        define b1 where "b1 = (take 4 (c # cs) = ''null'')"
        define b2 where "b2 = (take 4 (c # cs) = ''true'')"
        define b3 where "b3 = (take 5 (c # cs) = ''false'')"
        define b4 where "b4 = (c = CHR ''-'' \<or> is_dec c)"
        define t4 where "t4 = drop 4 (c # cs)"
        define t5 where "t5 = drop 5 (c # cs)"
        have t: "length t4 \<le> length s" "length t5 \<le> length s"
          using len by (simp_all add: t4_def t5_def)
        have "parse_value (Suc n) s =
            (if b1 then Parsed JNull t4
             else if b2 then Parsed (JBool True) t4
             else if b3 then Parsed (JBool False) t5
             else if b4 then
               (case parse_number (c # cs) of
                  Parsed x r \<Rightarrow> Parsed (JNum x) r
                | Malformed \<Rightarrow> Malformed | Beyond \<Rightarrow> Beyond | NoFuel \<Rightarrow> NoFuel)
             else Malformed)"
          unfolding b1_def b2_def b3_def b4_def t4_def t5_def using Cons other by simp
        with a have "r = t4 \<or> r = t5 \<or> (\<exists>x. parse_number (c # cs) = Parsed x r)"
          by (cases b1; cases b2; cases b3; cases b4; auto split: parsed.splits)
        then show ?thesis
          using t parse_number_rest [of "c # cs" _ r] len by auto
      qed
    qed
  qed
next
  case (3 acc s)
  then show ?case by simp
next
  case (4 n acc s)
  show ?case
  proof (intro impI)
    assume a: "parse_elements (Suc n) acc s = Parsed v r"
    from a obtain x r1 where pv: "parse_value n s = Parsed x r1"
      by (auto split: parsed.splits)
    have r1: "length r1 \<le> length s"
      using "4.IH"(1) [of x r1] pv by simp
    from a pv obtain c cs where sk: "skip_space r1 = c # cs"
      by (auto split: list.splits)
    have cl: "length cs < length r1"
      using sk by (rule skip_space_Cons_length)
    show "length r \<le> length s"
    proof (cases "c = CHR '',''")
      case True
      then have "parse_elements n (acc @ [x]) cs = Parsed v r"
        using a pv sk by simp
      then have "length r \<le> length cs"
        using "4.IH"(2) [OF pv sk True, of v r] by simp
      then show ?thesis using cl r1 by simp
    next
      case False
      then have "r = cs"
        using a pv sk by (auto split: if_splits)
      then show ?thesis using cl r1 by simp
    qed
  qed
next
  case (5 acc s)
  then show ?case by simp
next
  case (6 n acc s)
  show ?case
  proof (intro impI)
    assume a: "parse_members (Suc n) acc s = Parsed v r"
    from a obtain q qs where sk1: "skip_space s = q # qs"
      by (auto split: list.splits)
    have l1: "length qs < length s"
      using sk1 by (rule skip_space_Cons_length)
    have q: "\<not> q \<noteq> CHR 0x22"
      using a sk1 by (auto split: if_splits)
    from a sk1 q obtain k r1 where pc: "parse_chars [] qs = Parsed k r1"
      by (auto split: parsed.splits)
    have l2: "length r1 < length qs"
      using pc by (rule parse_chars_rest)
    from a sk1 q pc obtain c cs where sk2: "skip_space r1 = c # cs"
      by (auto split: list.splits)
    have l3: "length cs < length r1"
      using sk2 by (rule skip_space_Cons_length)
    have c: "\<not> c \<noteq> CHR '':''"
      using a sk1 q pc sk2 by (auto split: if_splits)
    from a sk1 q pc sk2 c obtain x r2 where pv: "parse_value n cs = Parsed x r2"
      by (auto split: parsed.splits)
    have l4: "length r2 \<le> length cs"
      using "6.IH"(1) [OF sk1 q pc sk2 c, of x r2] pv by simp
    from a sk1 q pc sk2 c pv obtain d ds where sk3: "skip_space r2 = d # ds"
      by (auto split: list.splits)
    have l5: "length ds < length r2"
      using sk3 by (rule skip_space_Cons_length)
    have idx: "\<not> is_array_index k"
      using a sk1 q pc sk2 c pv sk3 by (auto split: if_splits)
    show "length r \<le> length s"
    proof (cases "d = CHR '',''")
      case True
      then have "parse_members n (put_prop k x acc) ds = Parsed v r"
        using a sk1 q pc sk2 c pv sk3 idx by simp
      then have "length r \<le> length ds"
        using "6.IH"(2) [OF sk1 q pc sk2 c pv sk3 True idx, of v r] by simp
      then show ?thesis using l1 l2 l3 l4 l5 by simp
    next
      case False
      then have "r = ds"
        using a sk1 q pc sk2 c pv sk3 idx by (auto split: if_splits)
      then show ?thesis using l1 l2 l3 l4 l5 by simp
    qed
  qed
qed

lemma parse_fuel:
  "(2 * length s < n \<longrightarrow> parse_value n s \<noteq> NoFuel)"
  "(2 * length s + 1 < n \<longrightarrow> parse_elements n xs s \<noteq> NoFuel)"
  "(2 * length s + 1 < n \<longrightarrow> parse_members n kvs s \<noteq> NoFuel)"
proof (induction n s and n xs s and n kvs s
    rule: parse_value_parse_elements_parse_members.induct)
  case (1 s)
  then show ?case by simp
next
  case (2 n s)
  show ?case
  proof
    assume f: "2 * length s < Suc n"
    show "parse_value (Suc n) s \<noteq> NoFuel"
    proof (cases "skip_space s")
      case Nil
      then show ?thesis by simp
    next
      case (Cons c cs)
      have len: "length cs < length s"
        using Cons by (rule skip_space_Cons_length)
      have "c = CHR 0x22 \<or> (c \<noteq> CHR 0x22 \<and> c = CHR ''['')
          \<or> (c \<noteq> CHR 0x22 \<and> c \<noteq> CHR ''['' \<and> c = CHR ''{'')
          \<or> (c \<noteq> CHR 0x22 \<and> c \<noteq> CHR ''['' \<and> c \<noteq> CHR ''{'')"
        by (cases "c = CHR 0x22"; cases "c = CHR ''[''"; cases "c = CHR ''{''"; simp)
      then consider (str) "c = CHR 0x22" | (arr) "c \<noteq> CHR 0x22" "c = CHR ''[''"
        | (obj) "c \<noteq> CHR 0x22" "c \<noteq> CHR ''[''" "c = CHR ''{''"
        | (other) "c \<noteq> CHR 0x22" "c \<noteq> CHR ''[''" "c \<noteq> CHR ''{''"
        by (elim disjE conjE)
      then show ?thesis
      proof cases
        case str
        then show ?thesis
          using Cons parse_chars_fuel [of "[]" cs] by (simp split: parsed.splits)
      next
        case arr
        show ?thesis
        proof (cases "skip_space cs")
          case Nil
          then show ?thesis using Cons arr by simp
        next
          case inner: (Cons d ds)
          have dl: "length ds < length cs"
            using inner by (rule skip_space_Cons_length)
          show ?thesis
          proof (cases "d = CHR '']''")
            case True
            then show ?thesis using Cons arr inner by simp
          next
            case False
            have "parse_elements n [] (d # ds) \<noteq> NoFuel"
              using "2.IH"(1) [OF Cons arr(1) arr(2) inner False] f len dl by simp
            then show ?thesis using Cons arr inner False by simp
          qed
        qed
      next
        case obj
        show ?thesis
        proof (cases "skip_space cs")
          case Nil
          then show ?thesis using Cons obj by simp
        next
          case inner: (Cons d ds)
          have dl: "length ds < length cs"
            using inner by (rule skip_space_Cons_length)
          show ?thesis
          proof (cases "d = CHR ''}''")
            case True
            then show ?thesis using Cons obj inner by simp
          next
            case False
            have "parse_members n [] (d # ds) \<noteq> NoFuel"
              using "2.IH"(2) [OF Cons obj(1) obj(2) obj(3) inner False] f len dl by simp
            then show ?thesis using Cons obj inner False by simp
          qed
        qed
      next
        case other
        define b1 where "b1 = (take 4 (c # cs) = ''null'')"
        define b2 where "b2 = (take 4 (c # cs) = ''true'')"
        define b3 where "b3 = (take 5 (c # cs) = ''false'')"
        define b4 where "b4 = (c = CHR ''-'' \<or> is_dec c)"
        have "parse_value (Suc n) s =
            (if b1 then Parsed JNull (drop 4 (c # cs))
             else if b2 then Parsed (JBool True) (drop 4 (c # cs))
             else if b3 then Parsed (JBool False) (drop 5 (c # cs))
             else if b4 then
               (case parse_number (c # cs) of
                  Parsed x r \<Rightarrow> Parsed (JNum x) r
                | Malformed \<Rightarrow> Malformed | Beyond \<Rightarrow> Beyond | NoFuel \<Rightarrow> NoFuel)
             else Malformed)"
          unfolding b1_def b2_def b3_def b4_def using Cons other by simp
        then show ?thesis
          using parse_number_fuel [of "c # cs"]
          by (cases b1; cases b2; cases b3; cases b4; simp split: parsed.splits)
      qed
    qed
  qed
next
  case (3 acc s)
  then show ?case by simp
next
  case (4 n acc s)
  show ?case
  proof (intro impI)
    assume f: "2 * length s + 1 < Suc n"
    have pv: "parse_value n s \<noteq> NoFuel"
      using "4.IH"(1) f by simp
    show "parse_elements (Suc n) acc s \<noteq> NoFuel"
    proof (cases "parse_value n s")
      case (Parsed x r1)
      have r1: "length r1 \<le> length s"
        using parse_rest(1) [of n s x r1] Parsed by simp
      show ?thesis
      proof (cases "skip_space r1")
        case Nil
        then show ?thesis using Parsed by simp
      next
        case (Cons c cs)
        have cl: "length cs < length r1"
          using Cons by (rule skip_space_Cons_length)
        show ?thesis
        proof (cases "c = CHR '',''")
          case True
          have "parse_elements n (acc @ [x]) cs \<noteq> NoFuel"
            using "4.IH"(2) [OF Parsed Cons True] f r1 cl by simp
          then show ?thesis using Parsed Cons True by simp
        next
          case False
          then show ?thesis using Parsed Cons by simp
        qed
      qed
    qed (use pv in simp_all)
  qed
next
  case (5 acc s)
  then show ?case by simp
next
  case (6 n acc s)
  show ?case
  proof (intro impI)
    assume f: "2 * length s + 1 < Suc n"
    show "parse_members (Suc n) acc s \<noteq> NoFuel"
    proof (cases "skip_space s")
      case Nil
      then show ?thesis by simp
    next
      case sk1: (Cons q qs)
      have l1: "length qs < length s"
        using sk1 by (rule skip_space_Cons_length)
      show ?thesis
      proof (cases "q \<noteq> CHR 0x22")
        case True
        then show ?thesis using sk1 by simp
      next
        case q: False
        show ?thesis
        proof (cases "parse_chars [] qs")
          case pc: (Parsed k r1)
          have l2: "length r1 < length qs"
            using pc by (rule parse_chars_rest)
          show ?thesis
          proof (cases "skip_space r1")
            case Nil
            then show ?thesis using sk1 q pc by simp
          next
            case sk2: (Cons c cs)
            have l3: "length cs < length r1"
              using sk2 by (rule skip_space_Cons_length)
            show ?thesis
            proof (cases "c \<noteq> CHR '':''")
              case True
              then show ?thesis using sk1 q pc sk2 by simp
            next
              case c: False
              have pvf: "parse_value n cs \<noteq> NoFuel"
                using "6.IH"(1) [OF sk1 q pc sk2 c] f l1 l2 l3 by simp
              show ?thesis
              proof (cases "parse_value n cs")
                case pv: (Parsed x r2)
                have l4: "length r2 \<le> length cs"
                  using parse_rest(1) [of n cs x r2] pv by simp
                show ?thesis
                proof (cases "skip_space r2")
                  case Nil
                  then show ?thesis using sk1 q pc sk2 c pv by simp
                next
                  case sk3: (Cons d ds)
                  have l5: "length ds < length r2"
                    using sk3 by (rule skip_space_Cons_length)
                  show ?thesis
                  proof (cases "d = CHR '',''")
                    case True
                    show ?thesis
                    proof (cases "is_array_index k")
                      case idx: False
                      have "parse_members n (put_prop k x acc) ds \<noteq> NoFuel"
                        using "6.IH"(2) [OF sk1 q pc sk2 c pv sk3 True idx] f l1 l2 l3 l4 l5
                        by simp
                      then show ?thesis using sk1 q pc sk2 c pv sk3 True idx by simp
                    next
                      case True
                      then show ?thesis using sk1 q pc sk2 c pv sk3 \<open>d = CHR '',''\<close> by simp
                    qed
                  next
                    case False
                    then show ?thesis using sk1 q pc sk2 c pv sk3 by simp
                  qed
                qed
              qed (use pvf sk1 q pc sk2 c in simp_all)
            qed
          qed
        qed (use parse_chars_fuel [of "[]" qs] sk1 q in simp_all)
      qed
    qed
  qed
qed

lemma json_parse_fuel: "parse_value (Suc (2 * length s)) s \<noteq> NoFuel"
  using parse_fuel(1) [of s "Suc (2 * length s)"] by simp

lemma json_parse_None: "json_parse s = None \<longleftrightarrow> parse_value (Suc (2 * length s)) s = Beyond"
  using json_parse_fuel [of s] by (simp add: json_parse_def split: parsed.splits)

subsection \<open>The values that the parser returns\<close>

lemma representable_iff: "representable v \<longleftrightarrow> parseable v \<and> finite_numbers v"
proof (induction v)
  case (JNum x)
  then show ?case by (cases x) auto
next
  case (JArr xs)
  then show ?case by (auto simp: list_all_iff)
next
  case (JObj kvs)
  have "representable (snd kv) \<longleftrightarrow> parseable (snd kv) \<and> finite_numbers (snd kv)"
    if "kv \<in> set kvs" for kv
    using JObj [of kv "snd kv"] that by (cases kv) auto
  then show ?case by (auto simp: list_all_iff)
qed simp_all

lemma classify_parseable: "classify neg num den = Some x \<Longrightarrow> parseable (JNum x)"
  by (auto simp: classify_def split: if_splits)

lemma classified_parseable:
  "(if c then Malformed
    else (case classify neg num den of None \<Rightarrow> Beyond | Some y \<Rightarrow> Parsed y t)) = Parsed x r
   \<Longrightarrow> parseable (JNum x)"
  by (auto split: if_splits option.splits dest: classify_parseable)

lemma parse_number_parseable:
  assumes "parse_number s = Parsed x r"
  shows "parseable (JNum x)"
  using assms unfolding parse_number_def Let_def by (rule classified_parseable)

lemma put_prop_keys: "fst ` set (put_prop k v acc) = insert k (fst ` set acc)"
  by (induction acc) auto

lemma put_prop_distinct: "distinct (map fst acc) \<Longrightarrow> distinct (map fst (put_prop k v acc))"
proof (induction acc)
  case Nil
  then show ?case by simp
next
  case (Cons p ps)
  then show ?case
    using put_prop_keys [of k v ps] by (auto simp: image_iff)
qed

lemma put_prop_all:
  "P (k, v) \<Longrightarrow> list_all P acc \<Longrightarrow> list_all P (put_prop k v acc)"
  by (induction acc) auto

lemma put_prop_parseable:
  assumes "parseable (JObj acc)" and "\<not> is_array_index k" and "parseable v"
  shows "parseable (JObj (put_prop k v acc))"
  using assms by (simp add: put_prop_distinct put_prop_all)

lemma parse_parseable:
  "(parse_value n s = Parsed v r \<longrightarrow> parseable v)"
  "(parse_elements n xs s = Parsed v r \<longrightarrow> list_all parseable xs \<longrightarrow> parseable v)"
  "(parse_members n kvs s = Parsed v r \<longrightarrow> parseable (JObj kvs) \<longrightarrow> parseable v)"
proof (induction n s and n xs s and n kvs s arbitrary: v r and v r and v r
    rule: parse_value_parse_elements_parse_members.induct)
  case (1 s)
  then show ?case by simp
next
  case (2 n s)
  show ?case
  proof
    assume a: "parse_value (Suc n) s = Parsed v r"
    show "parseable v"
    proof (cases "skip_space s")
      case Nil
      then show ?thesis using a by simp
    next
      case (Cons c cs)
      have "c = CHR 0x22 \<or> (c \<noteq> CHR 0x22 \<and> c = CHR ''['')
          \<or> (c \<noteq> CHR 0x22 \<and> c \<noteq> CHR ''['' \<and> c = CHR ''{'')
          \<or> (c \<noteq> CHR 0x22 \<and> c \<noteq> CHR ''['' \<and> c \<noteq> CHR ''{'')"
        by (cases "c = CHR 0x22"; cases "c = CHR ''[''"; cases "c = CHR ''{''"; simp)
      then consider (str) "c = CHR 0x22" | (arr) "c \<noteq> CHR 0x22" "c = CHR ''[''"
        | (obj) "c \<noteq> CHR 0x22" "c \<noteq> CHR ''[''" "c = CHR ''{''"
        | (other) "c \<noteq> CHR 0x22" "c \<noteq> CHR ''[''" "c \<noteq> CHR ''{''"
        by (elim disjE conjE)
      then show ?thesis
      proof cases
        case str
        then show ?thesis
          using a Cons by (auto split: parsed.splits)
      next
        case arr
        show ?thesis
        proof (cases "skip_space cs")
          case Nil
          then show ?thesis using a Cons arr by simp
        next
          case inner: (Cons d ds)
          show ?thesis
          proof (cases "d = CHR '']''")
            case True
            then show ?thesis using a Cons arr inner by auto
          next
            case False
            then have "parse_elements n [] (d # ds) = Parsed v r"
              using a Cons arr inner by simp
            then show ?thesis
              using "2.IH"(1) [OF Cons arr(1) arr(2) inner False, of v r] by simp
          qed
        qed
      next
        case obj
        show ?thesis
        proof (cases "skip_space cs")
          case Nil
          then show ?thesis using a Cons obj by simp
        next
          case inner: (Cons d ds)
          show ?thesis
          proof (cases "d = CHR ''}''")
            case True
            then show ?thesis using a Cons obj inner by auto
          next
            case False
            then have "parse_members n [] (d # ds) = Parsed v r"
              using a Cons obj inner by simp
            then show ?thesis
              using "2.IH"(2) [OF Cons obj(1) obj(2) obj(3) inner False, of v r] by simp
          qed
        qed
      next
        case other
        define b1 where "b1 = (take 4 (c # cs) = ''null'')"
        define b2 where "b2 = (take 4 (c # cs) = ''true'')"
        define b3 where "b3 = (take 5 (c # cs) = ''false'')"
        define b4 where "b4 = (c = CHR ''-'' \<or> is_dec c)"
        have "parse_value (Suc n) s =
            (if b1 then Parsed JNull (drop 4 (c # cs))
             else if b2 then Parsed (JBool True) (drop 4 (c # cs))
             else if b3 then Parsed (JBool False) (drop 5 (c # cs))
             else if b4 then
               (case parse_number (c # cs) of
                  Parsed x r \<Rightarrow> Parsed (JNum x) r
                | Malformed \<Rightarrow> Malformed | Beyond \<Rightarrow> Beyond | NoFuel \<Rightarrow> NoFuel)
             else Malformed)"
          unfolding b1_def b2_def b3_def b4_def using Cons other by simp
        with a show ?thesis
          by (cases b1; cases b2; cases b3; cases b4;
              auto split: parsed.splits dest: parse_number_parseable)
      qed
    qed
  qed
next
  case (3 acc s)
  then show ?case by simp
next
  case (4 n acc s)
  show ?case
  proof (intro impI)
    assume a: "parse_elements (Suc n) acc s = Parsed v r" and acc: "list_all parseable acc"
    from a obtain x r1 where pv: "parse_value n s = Parsed x r1"
      by (auto split: parsed.splits)
    have x: "parseable x"
      using "4.IH"(1) [of x r1] pv by simp
    from a pv obtain c cs where sk: "skip_space r1 = c # cs"
      by (auto split: list.splits)
    show "parseable v"
    proof (cases "c = CHR '',''")
      case True
      then have "parse_elements n (acc @ [x]) cs = Parsed v r"
        using a pv sk by simp
      then show ?thesis
        using "4.IH"(2) [OF pv sk True, of v r] acc x by simp
    next
      case False
      then show ?thesis
        using a pv sk acc x by (auto split: if_splits)
    qed
  qed
next
  case (5 acc s)
  then show ?case by simp
next
  case (6 n acc s)
  show ?case
  proof (intro impI)
    assume a: "parse_members (Suc n) acc s = Parsed v r" and acc: "parseable (JObj acc)"
    from a obtain q qs where sk1: "skip_space s = q # qs"
      by (auto split: list.splits)
    have q: "\<not> q \<noteq> CHR 0x22"
      using a sk1 by (auto split: if_splits)
    from a sk1 q obtain k r1 where pc: "parse_chars [] qs = Parsed k r1"
      by (auto split: parsed.splits)
    from a sk1 q pc obtain c cs where sk2: "skip_space r1 = c # cs"
      by (auto split: list.splits)
    have c: "\<not> c \<noteq> CHR '':''"
      using a sk1 q pc sk2 by (auto split: if_splits)
    from a sk1 q pc sk2 c obtain x r2 where pv: "parse_value n cs = Parsed x r2"
      by (auto split: parsed.splits)
    have x: "parseable x"
      using "6.IH"(1) [OF sk1 q pc sk2 c, of x r2] pv by simp
    from a sk1 q pc sk2 c pv obtain d ds where sk3: "skip_space r2 = d # ds"
      by (auto split: list.splits)
    have idx: "\<not> is_array_index k"
      using a sk1 q pc sk2 c pv sk3 by (auto split: if_splits)
    have put: "parseable (JObj (put_prop k x acc))"
      using acc idx x by (rule put_prop_parseable)
    show "parseable v"
    proof (cases "d = CHR '',''")
      case True
      then have "parse_members n (put_prop k x acc) ds = Parsed v r"
        using a sk1 q pc sk2 c pv sk3 idx by simp
      then show ?thesis
        using "6.IH"(2) [OF sk1 q pc sk2 c pv sk3 True idx, of v r] put by simp
    next
      case False
      then show ?thesis
        using a sk1 q pc sk2 c pv sk3 idx put by (auto split: if_splits)
    qed
  qed
qed

lemma json_parse_parseable:
  assumes "json_parse s = Some (Inr v)"
  shows "parseable v"
proof -
  obtain r where "parse_value (Suc (2 * length s)) s = Parsed v r"
    using assms
    by (auto simp: json_parse_def simp del: parse_value.simps split: parsed.splits if_splits)
  then show ?thesis
    using parse_parseable(1) [of "Suc (2 * length s)" s v r] by simp
qed

subsection \<open>The text of a value with infinities\<close>

text \<open>
  A value and the value with \<open>null\<close> for its infinities have the same text, so
  parsing the text of a value of the model gives the latter.
\<close>

lemma serialize_infinities_as_null:
  "serialize gap ind (infinities_as_null v) = serialize gap ind v"
proof (induction v arbitrary: ind)
  case (JNum x)
  then show ?case by (cases x) simp_all
next
  case (JArr xs)
  have m: "map (serialize gap (ind @ gap)) (map infinities_as_null xs)
        = map (serialize gap (ind @ gap)) xs"
    using JArr by simp
  have e: "map infinities_as_null xs = [] \<longleftrightarrow> xs = []"
    by simp
  show ?case
    unfolding infinities_as_null.simps serialize.simps m e by (rule refl)
next
  case (JObj kvs)
  have "serialize gap (ind @ gap) (infinities_as_null (snd kv)) = serialize gap (ind @ gap) (snd kv)"
    if "kv \<in> set kvs" for kv
    using JObj [of kv "snd kv"] that by (cases kv) auto
  then have m: "map (\<lambda>kv. quote (fst kv) @ sep @ serialize gap (ind @ gap) (snd kv))
               (map (\<lambda>kv. (fst kv, infinities_as_null (snd kv))) kvs)
             = map (\<lambda>kv. quote (fst kv) @ sep @ serialize gap (ind @ gap) (snd kv)) kvs" for sep
    by simp
  have e: "map (\<lambda>kv. (fst kv, infinities_as_null (snd kv))) kvs = [] \<longleftrightarrow> kvs = []"
    by simp
  show ?case
    unfolding infinities_as_null.simps serialize.simps m e by (rule refl)
qed simp_all

lemma infinities_as_null_representable:
  "parseable v \<Longrightarrow> representable (infinities_as_null v)"
proof (induction v)
  case (JNum x)
  then show ?case by (cases x) simp_all
next
  case (JArr xs)
  then show ?case by (auto simp: list_all_iff)
next
  case (JObj kvs)
  have "representable (infinities_as_null (snd kv))" if "kv \<in> set kvs" for kv
    using JObj that by (cases kv) (auto simp: list_all_iff)
  moreover have "map fst (map (\<lambda>kv. (fst kv, infinities_as_null (snd kv))) kvs) = map fst kvs"
    by simp
  ultimately show ?case
    using JObj.prems by (auto simp: list_all_iff simp del: map_map)
qed simp_all


lemma json_parse_stringify_any:
  assumes "parseable v"
  shows "json_parse (json_stringify v n) = Some (Inr (infinities_as_null v))"
proof -
  have "json_stringify v n = json_stringify (infinities_as_null v) n"
    by (simp add: json_stringify_def serialize_infinities_as_null)
  then show ?thesis
    using json_parse_stringify [OF infinities_as_null_representable [OF assms], of n] by simp
qed

section \<open>Properties of bookmarks.js\<close>

subsection \<open>The search for a record with the same pair\<close>

lemma same_title_date_eq:
  "same_title_date b r = (if b = JNull \<or> r = JNull then Inl TypeError else Inr (same_pair b r))"
proof (cases "b = JNull \<or> r = JNull")
  case True
  then show ?thesis
    by (cases b) (auto simp: same_title_date_def)
next
  case False
  then have b: "get_prop b k = Inr (case b of JObj kvs \<Rightarrow> map_of kvs k | _ \<Rightarrow> None)" for k
    by (cases b) simp_all
  from False have r: "get_prop r k = Inr (case r of JObj kvs \<Rightarrow> map_of kvs k | _ \<Rightarrow> None)" for k
    by (cases r) simp_all
  show ?thesis
    using False
    by (cases b; cases r) (simp_all add: same_title_date_def same_pair_def title_date_def)
qed

lemma same_pair_not_null: "same_pair b r \<Longrightarrow> b \<noteq> JNull \<and> r \<noteq> JNull"
  by (simp add: same_pair_def)

lemma same_pair_trans: "same_pair r r' \<Longrightarrow> same_pair b r' = same_pair b r"
  by (auto simp: same_pair_def strict_eq_def)

lemma some_same_trans: "same_pair r r' \<Longrightarrow> some_same r' l = some_same r l"
proof (induction l)
  case Nil
  then show ?case by simp
next
  case (Cons b bs)
  then show ?case
    using same_pair_trans [of r r' b] same_pair_not_null [of r r']
    by (simp add: same_title_date_eq)
qed

lemma some_same_found:
  assumes "same_pair b r" and "JNull \<notin> set xs"
  shows "some_same r (xs @ b # ys) = Inr True"
  using assms
proof (induction xs)
  case Nil
  then show ?case
    using same_pair_not_null [of b r] by (simp add: same_title_date_eq)
next
  case (Cons x xs)
  then show ?case
    using same_pair_not_null [of b r] by (auto simp: same_title_date_eq)
qed

lemma some_same_True:
  "some_same r l = Inr True \<Longrightarrow> \<exists>xs b ys. l = xs @ b # ys \<and> same_pair b r \<and> JNull \<notin> set xs"
proof (induction l)
  case Nil
  then show ?case by simp
next
  case (Cons c cs)
  show ?case
  proof (cases "c = JNull \<or> r = JNull")
    case True
    then show ?thesis
      using Cons.prems by (simp add: same_title_date_eq)
  next
    case ok: False
    show ?thesis
    proof (cases "same_pair c r")
      case True
      then have "c # cs = [] @ c # cs \<and> same_pair c r \<and> JNull \<notin> set []"
        by simp
      then show ?thesis by blast
    next
      case False
      then have "some_same r cs = Inr True"
        using Cons.prems ok by (simp add: same_title_date_eq)
      then obtain xs b ys where "cs = xs @ b # ys" "same_pair b r" "JNull \<notin> set xs"
        using Cons.IH by blast
      then have "c # cs = (c # xs) @ b # ys \<and> same_pair b r \<and> JNull \<notin> set (c # xs)"
        using ok by auto
      then show ?thesis by blast
    qed
  qed
qed

lemma some_same_True_iff:
  "some_same r l = Inr True \<longleftrightarrow> (\<exists>xs b ys. l = xs @ b # ys \<and> same_pair b r \<and> JNull \<notin> set xs)"
  using some_same_True [of r l] some_same_found [of _ r] by blast


lemma some_same_False: "some_same r l = Inr False \<Longrightarrow> \<forall>b \<in> set l. \<not> same_pair b r"
proof (induction l)
  case Nil
  then show ?case by simp
next
  case (Cons c cs)
  then show ?case
    by (auto simp: same_title_date_eq split: if_splits)
qed

lemma some_same_outcome: "some_same r l = Inr True \<or> some_same r l = Inr False \<or> some_same r l = Inl TypeError"
proof (induction l)
  case Nil
  then show ?case by simp
next
  case (Cons c cs)
  then show ?case
    by (auto simp: same_title_date_eq)
qed

subsection \<open>The store after a call\<close>

lemma loadBookmarks_total: "\<exists>v. loadBookmarks api st = Inr v"
  by (simp add: loadBookmarks_def split: option.splits sum.splits)

lemma addBookmark_array:
  assumes "loadBookmarks api st = Inr (JArr l)"
  shows "addBookmark api r st =
           (case some_same r l of
              Inl e \<Rightarrow> (Inl e, st)
            | Inr found \<Rightarrow>
                if found then (Inr False, st)
                else (Inr True, saveBookmarks api (JArr (r # l)) st))"
  using assms by (simp add: addBookmark_def)

lemma addBookmark_no_array:
  assumes "loadBookmarks api st = Inr v" and "\<forall>l. v \<noteq> JArr l"
  shows "addBookmark api r st = (Inl TypeError, st)"
  using assms by (cases v) (simp_all add: addBookmark_def)

lemma model_agrees: "agrees model_api"
  by (simp add: agrees_def model_api_def)

lemma json_stringify_not_Nil: "json_stringify v n \<noteq> []"
proof -
  obtain c cs where "serialize (replicate (min n 10) CHR '' '') [] v = c # cs"
    using serialize_start [of "replicate (min n 10) CHR '' ''" "[]" v] by blast
  then show ?thesis
    by (simp add: json_stringify_def)
qed

lemma loadBookmarks_saved:
  assumes "agrees api" and "parseable v"
  shows "loadBookmarks api (saveBookmarks api v st) = Inr (infinities_as_null v)"
proof -
  have "JSON_stringify api v 0 = json_stringify v 0"
    using assms by (simp add: agrees_def)
  moreover have "JSON_parse api (json_stringify v 0) = Inr (infinities_as_null v)"
    using assms(1) json_parse_stringify_any [OF assms(2), of 0] by (simp add: agrees_def)
  ultimately show ?thesis
    using json_stringify_not_Nil [of v 0]
    by (simp add: loadBookmarks_def saveBookmarks_def)
qed

lemma loadBookmarks_added:
  assumes "agrees api" and "parseable (JArr l)" and "parseable r"
  shows "loadBookmarks api (saveBookmarks api (JArr (r # l)) st)
           = Inr (JArr (infinities_as_null r # map infinities_as_null l))"
  using loadBookmarks_saved [OF assms(1), of "JArr (r # l)" st] assms(2,3) by simp

lemma loadBookmarks_model_parseable:
  assumes "loadBookmarks model_api st = Inr v"
  shows "parseable v"
  using assms json_parse_parseable
  by (auto simp: loadBookmarks_def model_api_def split: option.splits if_splits sum.splits)

subsection \<open>The sample data\<close>

lemma one_text_stringify: "json_stringify (JArr [moon]) 0 = one_text"
  by (simp add: json_stringify_def moon_def one_text_def moon_text_def quote_def quote_char_def)

lemma two_text_stringify: "json_stringify (JArr [wall, moon]) 0 = two_text"
  by (simp add: json_stringify_def moon_def wall_def two_text_def moon_text_def wall_text_def
      quote_def quote_char_def)

lemma sample_texts_differ: "one_text \<noteq> []" "two_text \<noteq> []"
  by (simp_all add: one_text_def two_text_def)

lemma sample_keys:
  "\<not> is_array_index ''title''" "\<not> is_array_index ''date''" "\<not> is_array_index ''year''"
  by (simp_all add: is_array_index_def is_dec_def)

lemma sample_representable: "representable (JArr [moon])" "representable (JArr [wall, moon])"
  by (simp_all add: moon_def wall_def sample_keys)

lemma sample_stringify: "JSON_stringify model_api = json_stringify"
  by (simp add: model_api_def)

lemma sample_parse:
  "JSON_parse model_api one_text = Inr (JArr [moon])"
  "JSON_parse model_api two_text = Inr (JArr [wall, moon])"
  using json_parse_stringify [OF sample_representable(1), of 0]
    json_parse_stringify [OF sample_representable(2), of 0]
  by (simp_all add: model_api_def one_text_stringify two_text_stringify)

lemma sample_load_empty: "loadBookmarks model_api Map.empty = Inr (JArr [])"
  by (simp add: loadBookmarks_def)

lemma sample_load_moon: "loadBookmarks model_api [BOOKMARK_KEY \<mapsto> one_text] = Inr (JArr [moon])"
  by (simp add: loadBookmarks_def sample_parse sample_texts_differ)


lemmas parse_numeral =
  parse_value.simps(2) [of "pred_numeral k", folded numeral_eq_Suc]
  parse_elements.simps(2) [of "pred_numeral k", folded numeral_eq_Suc]
  parse_members.simps(2) [of "pred_numeral k", folded numeral_eq_Suc]
  for k

lemma sample_rejected: "json_parse ''{not json'' = Some (Inl SyntaxError)"
  by (simp add: json_parse_def parse_numeral skip_space_def is_json_space_def)





lemma null_moon_stringify: "json_stringify (JArr [JNull, moon]) 0 = null_moon_text"
  by (simp add: json_stringify_def moon_def null_moon_text_def moon_text_def quote_def quote_char_def)


lemma sample_null_texts: "null_moon_text \<noteq> []" "null_text \<noteq> []"
  by (simp_all add: null_moon_text_def null_text_def)

lemma sample_parseable:
  "parseable moon" "parseable wall" "parseable far_moon" "parseable JNull"
  by (simp_all add: moon_def wall_def far_moon_def sample_keys)

lemma sample_null_representable: "representable (JArr [JNull, moon])" "representable (JArr [JNull])"
  by (simp_all add: moon_def sample_keys)

lemma sample_load_null_moon:
  "loadBookmarks model_api [BOOKMARK_KEY \<mapsto> null_moon_text] = Inr (JArr [JNull, moon])"
  using json_parse_stringify [OF sample_null_representable(1), of 0]
  by (simp add: loadBookmarks_def model_api_def null_moon_stringify sample_null_texts)



lemma sample_same_pair:
  "same_pair moon moon" "\<not> same_pair moon wall" "\<not> same_pair far_moon wall"
  "\<not> same_pair JNull moon"
  by (simp_all add: same_pair_def title_date_def moon_def wall_def far_moon_def strict_eq_def
      is_primitive_def)

lemma sample_not_null: "moon \<noteq> JNull" "wall \<noteq> JNull" "far_moon \<noteq> JNull"
  by (simp_all add: moon_def wall_def far_moon_def)

lemma sample_keeps_pair: "keeps_pair moon"
  by (simp add: keeps_pair_def moon_def title_date_def)


subsection \<open>The claims\<close>

text \<open>
  Claim C3, as the code has it. Let the store hold an array. \<open>addBookmark\<close> returns
  \<open>false\<close>, leaving the storage as it is, exactly when the array has an element with
  the same (title, date) pair as the record and no \<open>null\<close> comes before it. When the
  pair of the record occurs in the array at all, the storage is unchanged, and the
  call returns \<open>false\<close> or throws a \<open>TypeError\<close> (when a \<open>null\<close> comes before the
  first element with the pair); it returns \<open>false\<close> when the array holds no \<open>null\<close>.
  When the store holds a value that is no array, the call throws a \<open>TypeError\<close>.
  Calling twice: on a platform that agrees with the model, for an array and a record
  of the model, when the record keeps its pair in the store (it is neither \<open>null\<close>
  nor an infinity, and its title and date hold no infinity), a second call with a
  record of the same pair returns \<open>false\<close> if the first call returned, throws what
  the first call threw otherwise, and leaves the storage as the first call left it.
\<close>

theorem addBookmark_duplicate_rejected:
  "(loadBookmarks api st = Inr (JArr l) \<longrightarrow>
      (addBookmark api r st = (Inr False, st)
         \<longleftrightarrow> (\<exists>xs b ys. l = xs @ b # ys \<and> same_pair b r \<and> JNull \<notin> set xs))
      \<and> ((\<exists>b \<in> set l. same_pair b r) \<longrightarrow>
            snd (addBookmark api r st) = st
            \<and> (fst (addBookmark api r st) = Inr False \<or> fst (addBookmark api r st) = Inl TypeError)
            \<and> (JNull \<notin> set l \<longrightarrow> addBookmark api r st = (Inr False, st))))
   \<and> (loadBookmarks api st = Inr v \<and> (\<forall>l. v \<noteq> JArr l) \<longrightarrow> addBookmark api r st = (Inl TypeError, st))
   \<and> (agrees api \<and> loadBookmarks api st = Inr (JArr l) \<and> parseable (JArr l) \<and> parseable r
        \<and> keeps_pair r \<and> same_pair r r' \<longrightarrow>
      (case addBookmark api r st of
         (res1, st1) \<Rightarrow>
           addBookmark api r' st1 = ((case res1 of Inl e \<Rightarrow> Inl e | Inr b \<Rightarrow> Inr False), st1)))"
proof (intro conjI impI)
  assume l: "loadBookmarks api st = Inr (JArr l)"
  show "addBookmark api r st = (Inr False, st)
         \<longleftrightarrow> (\<exists>xs b ys. l = xs @ b # ys \<and> same_pair b r \<and> JNull \<notin> set xs)"
  proof -
    have "addBookmark api r st = (Inr False, st) \<longleftrightarrow> some_same r l = Inr True"
      using some_same_outcome [of r l] by (auto simp: addBookmark_array [OF l])
    then show ?thesis
      by (simp only: some_same_True_iff)
  qed
next
  assume l: "loadBookmarks api st = Inr (JArr l)" and occurs: "\<exists>b \<in> set l. same_pair b r"
  have "some_same r l \<noteq> Inr False"
    using some_same_False [of r l] occurs by blast
  then have out: "some_same r l = Inr True \<or> some_same r l = Inl TypeError"
    using some_same_outcome [of r l] by blast
  then show "snd (addBookmark api r st) = st"
    by (auto simp: addBookmark_array [OF l])
  from out show "fst (addBookmark api r st) = Inr False \<or> fst (addBookmark api r st) = Inl TypeError"
    by (auto simp: addBookmark_array [OF l])
  assume clean: "JNull \<notin> set l"
  from occurs obtain b where "b \<in> set l" "same_pair b r"
    by blast
  then obtain xs ys where "l = xs @ b # ys"
    by (auto simp: in_set_conv_decomp)
  then have "some_same r l = Inr True"
    using some_same_found [OF \<open>same_pair b r\<close>, of xs ys] clean by simp
  then show "addBookmark api r st = (Inr False, st)"
    by (simp add: addBookmark_array [OF l])
next
  assume "loadBookmarks api st = Inr v \<and> (\<forall>l. v \<noteq> JArr l)"
  then show "addBookmark api r st = (Inl TypeError, st)"
    by (simp add: addBookmark_no_array)
next
  assume h: "agrees api \<and> loadBookmarks api st = Inr (JArr l) \<and> parseable (JArr l) \<and> parseable r
        \<and> keeps_pair r \<and> same_pair r r'"
  then have l: "loadBookmarks api st = Inr (JArr l)" and same: "same_pair r r'"
    by simp_all
  have again: "some_same r' l = some_same r l"
    using same by (rule some_same_trans)
  show "case addBookmark api r st of
         (res1, st1) \<Rightarrow>
           addBookmark api r' st1 = ((case res1 of Inl e \<Rightarrow> Inl e | Inr b \<Rightarrow> Inr False), st1)"
  proof (cases "some_same r l")
    case (Inl e)
    then have "addBookmark api r st = (Inl e, st)" and "addBookmark api r' st = (Inl e, st)"
      using again by (simp_all add: addBookmark_array [OF l])
    then show ?thesis
      by simp
  next
    case (Inr found)
    show ?thesis
    proof (cases found)
      case True
      then have "addBookmark api r st = (Inr False, st)" and "addBookmark api r' st = (Inr False, st)"
        using again Inr by (simp_all add: addBookmark_array [OF l])
      then show ?thesis
        by simp
    next
      case False
      let ?st1 = "saveBookmarks api (JArr (r # l)) st"
      have first: "addBookmark api r st = (Inr True, ?st1)"
        using False Inr by (simp add: addBookmark_array [OF l])
      have l1: "loadBookmarks api ?st1 = Inr (JArr (infinities_as_null r # map infinities_as_null l))"
        using h by (simp add: loadBookmarks_added)
      have "same_pair (infinities_as_null r) r'"
        using h by (simp add: keeps_pair_def same_pair_def)
      then have "some_same r' (infinities_as_null r # map infinities_as_null l) = Inr True"
        using some_same_found [of "infinities_as_null r" r' "[]" "map infinities_as_null l"] by simp
      then have "addBookmark api r' ?st1 = (Inr False, ?st1)"
        by (simp add: addBookmark_array [OF l1])
      then show ?thesis
        using first by simp
    qed
  qed
qed

theorem addBookmark_duplicate_rejected_witness:
  "loadBookmarks model_api [BOOKMARK_KEY \<mapsto> one_text] = Inr (JArr [moon])
   \<and> same_pair moon moon
   \<and> addBookmark model_api moon [BOOKMARK_KEY \<mapsto> one_text]
       = (Inr False, [BOOKMARK_KEY \<mapsto> one_text])
   \<and> addBookmark model_api moon Map.empty = (Inr True, [BOOKMARK_KEY \<mapsto> one_text])"
proof -
  note stored = addBookmark_duplicate_rejected
                  [of model_api "[BOOKMARK_KEY \<mapsto> one_text]" "[moon]" moon JNull moon]
  note twice = addBookmark_duplicate_rejected [of model_api Map.empty "[]" moon JNull moon]
  have first: "addBookmark model_api moon Map.empty = (Inr True, [BOOKMARK_KEY \<mapsto> one_text])"
    by (simp add: addBookmark_def sample_load_empty saveBookmarks_def sample_stringify one_text_stringify)
  have occurs: "\<exists>b \<in> set [moon]. same_pair b moon"
    by (simp add: sample_same_pair)
  have clean: "JNull \<notin> set [moon]"
    by (simp add: moon_def)
  have rejected: "addBookmark model_api moon [BOOKMARK_KEY \<mapsto> one_text]
          = (Inr False, [BOOKMARK_KEY \<mapsto> one_text])"
    by (rule stored [THEN conjunct1, THEN mp, OF sample_load_moon, THEN conjunct2, THEN mp,
          OF occurs, THEN conjunct2, THEN conjunct2, THEN mp, OF clean])
  have "agrees model_api \<and> loadBookmarks model_api Map.empty = Inr (JArr [])
        \<and> parseable (JArr []) \<and> parseable moon \<and> keeps_pair moon \<and> same_pair moon moon"
    by (simp add: model_agrees sample_load_empty sample_parseable sample_keeps_pair sample_same_pair)
  then have "case addBookmark model_api moon Map.empty of
               (res1, st1) \<Rightarrow>
                 addBookmark model_api moon st1
                   = ((case res1 of Inl e \<Rightarrow> Inl e | Inr b \<Rightarrow> Inr False), st1)"
    by (rule twice [THEN conjunct2, THEN conjunct2, THEN mp])
  then have "addBookmark model_api moon [BOOKMARK_KEY \<mapsto> one_text]
          = (Inr False, [BOOKMARK_KEY \<mapsto> one_text])"
    by (simp add: first)
  then show ?thesis
    using first rejected sample_load_moon sample_same_pair(1) by simp
qed

theorem addBookmark_null_before_counterexample:
  "loadBookmarks model_api [BOOKMARK_KEY \<mapsto> null_moon_text] = Inr (JArr [JNull, moon])
   \<and> same_pair ([JNull, moon] ! 1) moon
   \<and> addBookmark model_api moon [BOOKMARK_KEY \<mapsto> null_moon_text]
       = (Inl TypeError, [BOOKMARK_KEY \<mapsto> null_moon_text])"
  by (simp add: sample_load_null_moon sample_same_pair addBookmark_array [OF sample_load_null_moon]
      same_title_date_eq sample_not_null)







text \<open>
  Claim C5. \<open>loadBookmarks\<close> never throws: whatever the storage holds and whatever
  \<open>JSON.parse\<close> does with it, the result is a value. It is the empty array when the key
  is absent, and also when the text under the key is one that \<open>JSON.parse\<close> rejects; a
  non-empty text that parses is returned as the value it denotes.
\<close>

theorem loadBookmarks_never_throws:
  "(\<exists>v. loadBookmarks api st = Inr v)
   \<and> (st BOOKMARK_KEY = None \<longrightarrow> loadBookmarks api st = Inr (JArr []))
   \<and> (st BOOKMARK_KEY = Some raw \<and> JSON_parse api raw = Inl e \<longrightarrow> loadBookmarks api st = Inr (JArr []))
   \<and> (st BOOKMARK_KEY = Some raw \<and> raw \<noteq> [] \<and> JSON_parse api raw = Inr v \<longrightarrow> loadBookmarks api st = Inr v)"
  by (simp add: loadBookmarks_def split: option.splits sum.splits)

theorem loadBookmarks_never_throws_witness:
  "loadBookmarks model_api Map.empty = Inr (JArr [])
   \<and> loadBookmarks model_api [BOOKMARK_KEY \<mapsto> ''{not json''] = Inr (JArr [])
   \<and> loadBookmarks model_api [BOOKMARK_KEY \<mapsto> one_text] = Inr (JArr [moon])"
proof -
  have rejected: "JSON_parse model_api ''{not json'' = Inl SyntaxError"
    by (simp add: model_api_def sample_rejected)
  have parsed: "JSON_parse model_api one_text = Inr (JArr [moon])"
    by (simp add: sample_parse)
  have nonempty: "one_text \<noteq> []"
    by (simp add: sample_texts_differ)
  show ?thesis
    using loadBookmarks_never_throws [of model_api Map.empty "[]" SyntaxError JNull]
      loadBookmarks_never_throws
        [of model_api "[BOOKMARK_KEY \<mapsto> ''{not json'']" "''{not json''" SyntaxError JNull]
      loadBookmarks_never_throws
        [of model_api "[BOOKMARK_KEY \<mapsto> one_text]" one_text
            SyntaxError "JArr [moon]"]
      rejected parsed nonempty
    by simp
qed




end
